theory Spec2Isabelle
  imports Complex_Main "HOL-Library.Sublist"
begin

section \<open>Strings and the library functions the code calls\<close>

text \<open>
  A Go string is a sequence of bytes; \<open>len\<close> counts bytes and \<open>s[:n]\<close> slices bytes.
  It is modelled as \<^typ>\<open>string\<close>, each \<^typ>\<open>char\<close> one byte, \<open>byte\<close> its value.
\<close>

definition byte :: "char \<Rightarrow> nat" where
  "byte c = of_char c"

text \<open>
  Two library functions are not computed here and are taken as parameters:
  the Unicode path of \<open>strings.ToLower\<close> (taken on a string holding a byte \<open>\<ge> 0x80\<close>)
  and \<open>crypto/sha256\<close>.
\<close>

record Lib =
  unicodeToLower :: "string \<Rightarrow> string"
  sha256 :: "string \<Rightarrow> string"

subsection \<open>strings.ToLower\<close>

text \<open>
  \<open>strings.ToLower\<close> has a path for strings of ASCII bytes only, which adds
  \<open>'a' - 'A'\<close> to each byte in \<open>'A'..'Z'\<close>; every other string goes through
  the Unicode tables.
\<close>

definition lowerASCII :: "char \<Rightarrow> char" where
  "lowerASCII c =
     (case map_of (zip ''ABCDEFGHIJKLMNOPQRSTUVWXYZ'' ''abcdefghijklmnopqrstuvwxyz'') c of
        Some d \<Rightarrow> d
      | None \<Rightarrow> c)"

definition isASCII :: "string \<Rightarrow> bool" where
  "isASCII s = list_all (\<lambda>c. byte c < 128) s"

definition ToLower :: "Lib \<Rightarrow> string \<Rightarrow> string" where
  "ToLower L s = (if isASCII s then map lowerASCII s else unicodeToLower L s)"

subsection \<open>strings.TrimSpace\<close>

text \<open>
  \<open>strings.TrimSpace\<close> removes all leading and trailing white space, as defined by
  Unicode (\<open>unicode.IsSpace\<close>). The white-space runes are U+0009..U+000D, U+0020,
  U+0085, U+00A0, U+1680, U+2000..U+200A, U+2028, U+2029, U+202F, U+205F and U+3000;
  \<open>spaceRunes\<close> lists their UTF-8 encodings. A string starts (ends) with a white-space
  rune exactly when one of these byte sequences is a prefix (suffix) of it.
\<close>

definition spaceRunes :: "string list" where
  "spaceRunes =
     [[CHR 0x09], [CHR 0x0A], [CHR 0x0B], [CHR 0x0C], [CHR 0x0D], [CHR 0x20],
      [CHR 0xC2, CHR 0x85], [CHR 0xC2, CHR 0xA0],
      [CHR 0xE1, CHR 0x9A, CHR 0x80],
      [CHR 0xE2, CHR 0x80, CHR 0x80], [CHR 0xE2, CHR 0x80, CHR 0x81],
      [CHR 0xE2, CHR 0x80, CHR 0x82], [CHR 0xE2, CHR 0x80, CHR 0x83],
      [CHR 0xE2, CHR 0x80, CHR 0x84], [CHR 0xE2, CHR 0x80, CHR 0x85],
      [CHR 0xE2, CHR 0x80, CHR 0x86], [CHR 0xE2, CHR 0x80, CHR 0x87],
      [CHR 0xE2, CHR 0x80, CHR 0x88], [CHR 0xE2, CHR 0x80, CHR 0x89],
      [CHR 0xE2, CHR 0x80, CHR 0x8A],
      [CHR 0xE2, CHR 0x80, CHR 0xA8], [CHR 0xE2, CHR 0x80, CHR 0xA9],
      [CHR 0xE2, CHR 0x80, CHR 0xAF],
      [CHR 0xE2, CHR 0x81, CHR 0x9F],
      [CHR 0xE3, CHR 0x80, CHR 0x80]]"

text \<open>The length of the white-space rune a string starts with, 0 if there is none.\<close>

definition leadingSpace :: "string \<Rightarrow> nat" where
  "leadingSpace s = (case find (\<lambda>p. prefix p s) spaceRunes of Some p \<Rightarrow> length p | None \<Rightarrow> 0)"

definition trailingSpace :: "string \<Rightarrow> nat" where
  "trailingSpace s = (case find (\<lambda>p. suffix p s) spaceRunes of Some p \<Rightarrow> length p | None \<Rightarrow> 0)"

fun trimLeftFuel :: "nat \<Rightarrow> string \<Rightarrow> string" where
  "trimLeftFuel 0 s = s"
| "trimLeftFuel (Suc k) s =
     (if leadingSpace s = 0 then s else trimLeftFuel k (drop (leadingSpace s) s))"

fun trimRightFuel :: "nat \<Rightarrow> string \<Rightarrow> string" where
  "trimRightFuel 0 s = s"
| "trimRightFuel (Suc k) s =
     (if trailingSpace s = 0 then s else trimRightFuel k (take (length s - trailingSpace s) s))"

text \<open>
  Each step removes at least one byte, so \<open>length s\<close> steps are enough to reach a
  string with no white space at that end (\<open>TrimSpace_no_leading\<close>,
  \<open>TrimSpace_no_trailing\<close> below).
\<close>

definition TrimSpace :: "string \<Rightarrow> string" where
  "TrimSpace s = (let t = trimLeftFuel (length s) s in trimRightFuel (length t) t)"

text \<open>
  \<open>white s\<close>: the string is a sequence of white-space runes.
\<close>

inductive white :: "string \<Rightarrow> bool" where
  white_Nil: "white []"
| white_Cons: "p \<in> set spaceRunes \<Longrightarrow> white l \<Longrightarrow> white (p @ l)"

subsection \<open>Ranging over the runes of a string\<close>

text \<open>
  \<open>for _, r := range s\<close> decodes the string as UTF-8, one rune at a time
  (\<open>utf8.DecodeRuneInString\<close>): a byte that starts no valid encoding is the rune
  \<open>RuneError\<close> of width 1.
\<close>

definition RuneError :: nat where
  "RuneError = 0xFFFD"

fun DecodeRune :: "string \<Rightarrow> nat \<times> nat" where
  "DecodeRune [] = (RuneError, 0)"
| "DecodeRune (c0 # cs) =
     (let s0 = byte c0 in
      if s0 < 0x80 then (s0, 1)
      else if s0 < 0xC2 \<or> 0xF4 < s0 then (RuneError, 1)
      else
        let sz = (if s0 < 0xE0 then 2 else if s0 < 0xF0 then 3 else (4::nat));
            lo = (if s0 = 0xE0 then 0xA0 else if s0 = 0xF0 then 0x90 else 0x80);
            hi = (if s0 = 0xED then 0x9F else if s0 = 0xF4 then 0x8F else 0xBF)
        in if length (c0 # cs) < sz then (RuneError, 1)
           else let s1 = byte (cs ! 0) in
             if s1 < lo \<or> hi < s1 then (RuneError, 1)
             else if sz \<le> 2 then ((s0 mod 32) * 64 + s1 mod 64, 2)
             else let s2 = byte (cs ! 1) in
               if s2 < 0x80 \<or> 0xBF < s2 then (RuneError, 1)
               else if sz \<le> 3 then ((s0 mod 16) * 4096 + (s1 mod 64) * 64 + s2 mod 64, 3)
               else let s3 = byte (cs ! 2) in
                 if s3 < 0x80 \<or> 0xBF < s3 then (RuneError, 1)
                 else ((s0 mod 8) * 262144 + (s1 mod 64) * 4096 + (s2 mod 64) * 64
                       + s3 mod 64, 4))"

fun runes :: "string \<Rightarrow> nat list" where
  "runes [] = []"
| "runes (c # cs) =
     fst (DecodeRune (c # cs)) # runes (drop (snd (DecodeRune (c # cs)) - 1) cs)"

text \<open>\<open>unicode.IsControl\<close>: the category Cc, U+0000..U+001F and U+007F..U+009F.\<close>

definition IsControl :: "nat \<Rightarrow> bool" where
  "IsControl r = (r < 0x20 \<or> (0x7F \<le> r \<and> r < 0xA0))"

subsection \<open>Regular expressions\<close>

text \<open>
  The \<open>regexp\<close> package matches leftmost-first: among the matches that start at the
  leftmost possible position it takes the one a backtracking search finds first.
  \<open>ms r s\<close> lists the lengths of all matches of \<open>r\<close> that start at the beginning of
  \<open>s\<close>, in the order in which a backtracking search finds them; repetition is greedy.
  Patterns are written over bytes. The patterns of this program are ASCII; under the flag
  \<open>(?i)\<close> the letters k and s also match U+212A (Kelvin sign) and U+017F (long s),
  which appear here as their UTF-8 encodings.
\<close>

datatype regex =
    Lit string
  | Cls "char \<Rightarrow> bool"
  | Cat regex regex
  | Alt regex regex
  | Star regex

fun star :: "(string \<Rightarrow> nat list) \<Rightarrow> nat \<Rightarrow> string \<Rightarrow> nat list" where
  "star f 0 s = [0]"
| "star f (Suc k) s =
     concat (map (\<lambda>n. if n = 0 then [] else map ((+) n) (star f k (drop n s))) (f s)) @ [0]"

primrec ms :: "regex \<Rightarrow> string \<Rightarrow> nat list" where
  "ms (Lit p) s = (if prefix p s then [length p] else [])"
| "ms (Cls P) s = (case s of [] \<Rightarrow> [] | c # _ \<Rightarrow> if P c then [1] else [])"
| "ms (Cat a b) s = concat (map (\<lambda>n. map ((+) n) (ms b (drop n s))) (ms a s))"
| "ms (Alt a b) s = ms a s @ ms b s"
| "ms (Star a) s = star (ms a) (length s) s"

fun Seq :: "regex list \<Rightarrow> regex" where
  "Seq [] = Lit []"
| "Seq [r] = r"
| "Seq (r # rs) = Cat r (Seq rs)"

fun Alts :: "regex list \<Rightarrow> regex" where
  "Alts [] = Cls (\<lambda>_. False)"
| "Alts [r] = r"
| "Alts (r # rs) = Alt r (Alts rs)"

definition Plus :: "regex \<Rightarrow> regex" where
  "Plus r = Cat r (Star r)"

definition Opt :: "regex \<Rightarrow> regex" where
  "Opt r = Alt r (Lit [])"

fun Times :: "regex \<Rightarrow> nat \<Rightarrow> regex" where
  "Times r 0 = Lit []"
| "Times r (Suc n) = Cat r (Times r n)"

definition AtLeast :: "regex \<Rightarrow> nat \<Rightarrow> regex" where
  "AtLeast r n = Cat (Times r n) (Star r)"

definition rng :: "char \<Rightarrow> char \<Rightarrow> char \<Rightarrow> bool" where
  "rng lo hi c = (byte lo \<le> byte c \<and> byte c \<le> byte hi)"

definition kelvinSign :: string where
  "kelvinSign = [CHR 0xE2, CHR 0x84, CHR 0xAA]"

definition longS :: string where
  "longS = [CHR 0xC5, CHR 0xBF]"

text \<open>A literal under \<open>(?i)\<close>: each letter matches both of its cases and its other folds.\<close>

definition foldChar :: "char \<Rightarrow> regex" where
  "foldChar c =
     (if lowerASCII c = CHR ''k'' then Alt (Cls (\<lambda>d. lowerASCII d = CHR ''k'')) (Lit kelvinSign)
      else if lowerASCII c = CHR ''s'' then Alt (Cls (\<lambda>d. lowerASCII d = CHR ''s'')) (Lit longS)
      else Cls (\<lambda>d. lowerASCII d = lowerASCII c))"

fun LitI :: "string \<Rightarrow> regex" where
  "LitI [] = Lit []"
| "LitI [c] = foldChar c"
| "LitI (c # cs) = Cat (foldChar c) (LitI cs)"

text \<open>The Perl class \<open>\s\<close> of the package: \<open>[\t\n\f\r ]\<close>.\<close>

definition perlSpace :: regex where
  "perlSpace = Cls (\<lambda>c. c \<in> set [CHR 0x09, CHR 0x0A, CHR 0x0C, CHR 0x0D, CHR 0x20])"

text \<open>
  \<open>ReplaceAllString\<close> scans from the left: where a match starts, the match is replaced and
  the scan goes on behind it; elsewhere the byte is copied. (A pattern that matches the
  empty string follows further rules of the package, which are not modelled: the patterns
  of this program match no empty string, see \<open>patterns_nonempty\<close>.)
\<close>

fun ReplaceAllString :: "regex \<Rightarrow> string \<Rightarrow> string \<Rightarrow> string" where
  "ReplaceAllString r [] repl = []"
| "ReplaceAllString r (c # cs) repl =
     (case ms r (c # cs) of
        [] \<Rightarrow> c # ReplaceAllString r cs repl
      | n # _ \<Rightarrow>
          if n = 0 then c # ReplaceAllString r cs repl
          else repl @ ReplaceAllString r (drop (n - 1) cs) repl)"

text \<open>\<open>MatchString\<close> for a pattern that starts with \<open>^\<close>: a match at the start of the text.\<close>

definition MatchStringAnchored :: "regex \<Rightarrow> string \<Rightarrow> bool" where
  "MatchStringAnchored r s = (ms r s \<noteq> [])"

text \<open>\<open>MatchString\<close>: a match anywhere in the text.\<close>

fun MatchString :: "regex \<Rightarrow> string \<Rightarrow> bool" where
  "MatchString r [] = (ms r [] \<noteq> [])"
| "MatchString r (c # cs) = (ms r (c # cs) \<noteq> [] \<or> MatchString r cs)"

section \<open>Domain: commit suggestions\<close>

definition ValidCommitTypes :: "string list" where
  "ValidCommitTypes =
     [''feat'', ''fix'', ''docs'', ''style'', ''refactor'', ''perf'', ''test'', ''chore'',
      ''build'', ''ci'', ''revert'']"

record Suggestion =
  Type :: string
  Subject :: string
  Body :: string
  Footer :: string

text \<open>\<open>Format\<close>: \<open>fmt.Sprintf("%s: %s", s.Type, s.Subject)\<close>, then the two optional parts.\<close>

definition Format :: "Suggestion \<Rightarrow> string" where
  "Format s =
     (let msg = Type s @ '': '' @ Subject s;
          msg = (if Body s \<noteq> [] then msg @ ''\<newline>\<newline>'' @ Body s else msg);
          msg = (if Footer s \<noteq> [] then msg @ ''\<newline>\<newline>'' @ Footer s else msg)
      in msg)"

text \<open>
  \<open>Normalize\<close>: the four assignments in the order of the source, then the truncation of
  the subject to its first 72 bytes.
\<close>

definition Normalize :: "Lib \<Rightarrow> Suggestion \<Rightarrow> Suggestion" where
  "Normalize L s =
     (let s = s\<lparr>Type := TrimSpace (ToLower L (Type s))\<rparr>;
          s = s\<lparr>Subject := TrimSpace (Subject s)\<rparr>;
          s = s\<lparr>Body := TrimSpace (Body s)\<rparr>;
          s = s\<lparr>Footer := TrimSpace (Footer s)\<rparr>
      in if length (Subject s) > 72 then s\<lparr>Subject := take 72 (Subject s)\<rparr> else s)"


datatype verr =
    TypeIsRequired
  | InvalidType string
  | SubjectIsRequired
  | SubjectExceeds72 nat
  | SubjectNewlines
  | SubjectControlChars
  | BodyControlChars
  | InvalidFooterFormat
  | FooterControlChars

text \<open>\<open>isValidType\<close>: the loop over \<open>ValidCommitTypes\<close>.\<close>

fun isValidTypeLoop :: "string list \<Rightarrow> string \<Rightarrow> bool" where
  "isValidTypeLoop [] t = False"
| "isValidTypeLoop (valid # rest) t = (if t = valid then True else isValidTypeLoop rest t)"

definition isValidType :: "string \<Rightarrow> bool" where
  "isValidType t = isValidTypeLoop ValidCommitTypes t"

text \<open>\<open>isValidFooter\<close>: the pattern \<open>^(BREAKING CHANGE|Closes|Refs): .+\<close>.\<close>

definition footerPattern :: regex where
  "footerPattern =
     Seq [Alts [Lit ''BREAKING CHANGE'', Lit ''Closes'', Lit ''Refs''],
          Lit '': '',
          Plus (Cls (\<lambda>c. c \<noteq> CHR 0x0A))]"

definition isValidFooter :: "string \<Rightarrow> bool" where
  "isValidFooter f = MatchStringAnchored footerPattern f"

text \<open>\<open>hasControlChars\<close>: the loop over the runes of the string, with its three tests.\<close>

fun hasControlCharsLoop :: "nat list \<Rightarrow> bool" where
  "hasControlCharsLoop [] = False"
| "hasControlCharsLoop (r # rs) =
     (if r < 32 \<and> r \<noteq> 0x0A \<and> r \<noteq> 0x09 then True
      else if r = 127 then True
      else if IsControl r \<and> r \<noteq> 0x0A \<and> r \<noteq> 0x09 then True
      else hasControlCharsLoop rs)"

definition hasControlChars :: "string \<Rightarrow> bool" where
  "hasControlChars s = hasControlCharsLoop (runes s)"

text \<open>\<open>Validate\<close> returns the first rule that fails, \<open>None\<close> for \<open>nil\<close>.\<close>

definition Validate :: "Suggestion \<Rightarrow> verr option" where
  "Validate s =
     (if Type s = [] then Some TypeIsRequired
      else if \<not> isValidType (Type s) then Some (InvalidType (Type s))
      else if Subject s = [] then Some SubjectIsRequired
      else if length (Subject s) > 72 then Some (SubjectExceeds72 (length (Subject s)))
      else if CHR 0x0A \<in> set (Subject s) then Some SubjectNewlines
      else if hasControlChars (Subject s) then Some SubjectControlChars
      else if Body s \<noteq> [] \<and> hasControlChars (Body s) then Some BodyControlChars
      else if Footer s \<noteq> [] \<and> \<not> isValidFooter (Footer s) then Some InvalidFooterFormat
      else if Footer s \<noteq> [] \<and> hasControlChars (Footer s) then Some FooterControlChars
      else None)"

section \<open>The redactor\<close>

definition alnum :: "char \<Rightarrow> bool" where
  "alnum c = (rng CHR ''a'' CHR ''z'' c \<or> rng CHR ''A'' CHR ''Z'' c \<or> rng CHR ''0'' CHR ''9'' c)"

definition notQuote :: regex where
  "notQuote = Cls (\<lambda>c. c \<noteq> CHR 0x22)"

text \<open>\<open>sk-[a-zA-Z0-9]{20,}\<close>\<close>

definition patOpenAI :: regex where
  "patOpenAI = Seq [Lit ''sk-'', AtLeast (Cls alnum) 20]"

text \<open>\<open>(?i)AKIA[0-9A-Z]{16}\<close>\<close>

definition patAWS :: regex where
  "patAWS =
     Seq [LitI ''AKIA'',
          Times (Alts [Cls alnum, Lit longS, Lit kelvinSign]) 16]"

text \<open>\<open>(?i)(?:authorization|auth|token):\s*Bearer\s+[a-zA-Z0-9._\-]+\<close>\<close>

definition patBearer :: regex where
  "patBearer =
     Seq [Alts [LitI ''authorization'', LitI ''auth'', LitI ''token''],
          Lit '':'', Star perlSpace, LitI ''Bearer'', Plus perlSpace,
          Plus (Alts [Cls (\<lambda>c. alnum c \<or> c \<in> set ''._-''), Lit longS, Lit kelvinSign])]"

text \<open>\<open>"(?:api_key|apiKey|API_KEY)":\s*"[^"]+"\<close>\<close>

definition patJSONKey :: regex where
  "patJSONKey =
     Seq [Lit [CHR 0x22], Alts [Lit ''api_key'', Lit ''apiKey'', Lit ''API_KEY''],
          Lit [CHR 0x22, CHR '':''], Star perlSpace,
          Lit [CHR 0x22], Plus notQuote, Lit [CHR 0x22]]"

text \<open>\<open>(?i)(?:password|passwd|pwd):\s*"[^"]+"\<close>\<close>

definition patPassword :: regex where
  "patPassword =
     Seq [Alts [LitI ''password'', LitI ''passwd'', LitI ''pwd''],
          Lit '':'', Star perlSpace,
          Lit [CHR 0x22], Plus notQuote, Lit [CHR 0x22]]"

text \<open>\<open>AIza[0-9A-Za-z\-_]{35}\<close>\<close>

definition patGoogle :: regex where
  "patGoogle = Seq [Lit ''AIza'', Times (Cls (\<lambda>c. alnum c \<or> c \<in> set ''-_'')) 35]"

text \<open>\<open>ghp_[a-zA-Z0-9]{36}\<close> and \<open>ghu_[a-zA-Z0-9]{36}\<close>\<close>

definition patGhp :: regex where
  "patGhp = Seq [Lit ''ghp_'', Times (Cls alnum) 36]"

definition patGhu :: regex where
  "patGhu = Seq [Lit ''ghu_'', Times (Cls alnum) 36]"

text \<open>\<open>-----BEGIN (?:RSA |DSA |EC )?PRIVATE KEY-----\<close>\<close>

definition patPEM :: regex where
  "patPEM =
     Seq [Lit ''-----BEGIN '', Opt (Alts [Lit ''RSA '', Lit ''DSA '', Lit ''EC '']),
          Lit ''PRIVATE KEY-----'']"

text \<open>\<open>NewRedactor\<close>: the default patterns, in their order.\<close>

definition NewRedactor :: "regex list" where
  "NewRedactor =
     [patOpenAI, patAWS, patBearer, patJSONKey, patPassword, patGoogle, patGhp, patGhu, patPEM]"

definition placeholder :: string where
  "placeholder = ''[REDACTED]''"

text \<open>\<open>Redact\<close>: the loop over the patterns, each applied to the result of the one before.\<close>

fun RedactLoop :: "regex list \<Rightarrow> string \<Rightarrow> string" where
  "RedactLoop [] result = result"
| "RedactLoop (pattern # rest) result =
     RedactLoop rest (ReplaceAllString pattern result placeholder)"

definition Redact :: "regex list \<Rightarrow> string \<Rightarrow> string" where
  "Redact patterns text = RedactLoop patterns text"


text \<open>\<open>Contains\<close>: whether some pattern matches somewhere in the text.\<close>

fun ContainsLoop :: "regex list \<Rightarrow> string \<Rightarrow> bool" where
  "ContainsLoop [] text = False"
| "ContainsLoop (pattern # rest) text =
     (if MatchString pattern text then True else ContainsLoop rest text)"

definition Contains :: "regex list \<Rightarrow> string \<Rightarrow> bool" where
  "Contains patterns text = ContainsLoop patterns text"

section \<open>Ports\<close>

text \<open>
  \<open>ports.CommitSuggestion\<close> has the four fields of \<open>domain.Suggestion\<close>; its field names
  carry the prefix \<open>c\<close> here.
\<close>

record CommitSuggestion =
  cType :: string
  cSubject :: string
  cBody :: string
  cFooter :: string

text \<open>\<open>ports.SuggestInput\<close> (its field \<open>Options\<close> is never set by this program).\<close>

record SuggestInput =
  StagedDiff :: string
  FileList :: "string list"
  Model :: string
  Temperature :: real

text \<open>
  An error is a value. The constructors are the \<open>fmt.Errorf\<close> calls of the application
  layer; an error that a port returns is its message, and \<open>%w\<close> keeps it.
\<close>

datatype error =
    FailedToCheckRepositoryStatus string   \<comment> \<open>"failed to check repository status: %w"\<close>
  | NotInAGitRepository                    \<comment> \<open>"not in a git repository"\<close>
  | FailedToReadStagedDiff string          \<comment> \<open>"failed to read staged diff: %w"\<close>
  | NoStagedChanges                        \<comment> \<open>"no staged changes"\<close>
  | LLMError string                        \<comment> \<open>"LLM error: %w"\<close>
  | InvalidSuggestionsFromLLM error        \<comment> \<open>"invalid suggestions from LLM: %w"\<close>
  | Expected3Suggestions nat               \<comment> \<open>"expected 3 suggestions, got %d"\<close>
  | SuggestionValidationFailed nat verr    \<comment> \<open>"suggestion %d validation failed: %w"\<close>
  | CommitMessageCannotBeEmpty             \<comment> \<open>"commit message cannot be empty"\<close>
  | GitCommitFailed string                 \<comment> \<open>"git commit failed: %w"\<close>
  | SliceBoundsOutOfRange                  \<comment> \<open>the run-time panic of \<open>diff[:maxBytes]\<close>\<close>

text \<open>
  \<open>ports.Git\<close>: what the three methods return when they are called; \<open>Inl\<close> is a non-nil
  error.
\<close>

record Git =
  gitIsInRepository :: "string + bool"
  gitStagedDiff :: "string + string"
  gitCommit :: "string \<Rightarrow> bool \<Rightarrow> string + string"

subsection \<open>The in-memory cache\<close>

type_synonym InMemory = "string \<rightharpoonup> CommitSuggestion list"

definition NewInMemory :: InMemory where
  "NewInMemory = Map.empty"

definition InMemory_Get :: "InMemory \<Rightarrow> string \<Rightarrow> string + CommitSuggestion list" where
  "InMemory_Get c key = (case c key of Some val \<Rightarrow> Inr val | None \<Rightarrow> Inl ''cache miss'')"

definition InMemory_Set :: "InMemory \<Rightarrow> string \<Rightarrow> CommitSuggestion list \<Rightarrow> InMemory" where
  "InMemory_Set c key suggestions = c(key \<mapsto> suggestions)"

subsection \<open>The git executor\<close>

text \<open>
  \<open>cmd.Output()\<close> returns the standard output, or an error: the command exited with a
  non-zero status, could not be started, or was killed at the deadline of the context.
\<close>

datatype cmdResult = Output string | CmdError string

definition Executor_IsInRepository :: "cmdResult \<Rightarrow> string + bool" where
  "Executor_IsInRepository r =
     (case r of
        CmdError err \<Rightarrow> Inr False
      | Output output \<Rightarrow> Inr (TrimSpace output = ''true''))"

definition Executor_StagedDiff :: "cmdResult \<Rightarrow> string + string" where
  "Executor_StagedDiff r =
     (case r of
        CmdError err \<Rightarrow> Inl (''git diff failed: '' @ err)
      | Output output \<Rightarrow> Inr output)"

section \<open>The application layer\<close>

text \<open>
  What the services change or call is kept in a record: the content of the cache, the
  inputs handed to the provider so far and the calls of the git port's \<open>Commit\<close>, both
  oldest first.
\<close>

record World =
  cacheMap :: InMemory
  llmCalls :: "SuggestInput list"
  gitCommits :: "(string \<times> bool) list"

text \<open>
  \<open>SuggestService\<close>. The provider answers a call with an error or with candidates; its
  answer may depend on the calls made before. The cache is the in-memory cache, its content
  a part of the world; \<open>cache\<close> tells whether the field is non-nil. The timeout reaches
  the ports through the context and shows in their answers.
\<close>

record SuggestService =
  llm :: "SuggestInput list \<Rightarrow> SuggestInput \<Rightarrow> string + CommitSuggestion list"
  git :: Git
  redactor :: "string \<Rightarrow> string"
  cache :: bool
  diffCap :: int
  useCache :: bool

text \<open>\<open>fmt.Sprintf("%x", sum)\<close>: two lower-case hexadecimal digits for each byte.\<close>

definition hexByte :: "char \<Rightarrow> string" where
  "hexByte c = [''0123456789abcdef'' ! (byte c div 16), ''0123456789abcdef'' ! (byte c mod 16)]"

definition hex :: "string \<Rightarrow> string" where
  "hex bs = concat (map hexByte bs)"

text \<open>\<open>hashDiff\<close>: \<open>h\<close> is what has been written to the hash so far.\<close>

definition hashDiff :: "Lib \<Rightarrow> string \<Rightarrow> string \<Rightarrow> string \<Rightarrow> string" where
  "hashDiff L diff provider model =
     (let h = [];
          h = h @ diff;
          h = h @ ''\<newline>provider='';
          h = h @ provider;
          h = h @ ''\<newline>model='';
          h = h @ model
      in hex (sha256 L h))"

definition capDiff :: "string \<Rightarrow> int \<Rightarrow> error + string" where
  "capDiff diff maxBytes =
     (if int (length diff) \<le> maxBytes then Inr diff
      else if maxBytes < 0 then Inl SliceBoundsOutOfRange
      else Inr (take (nat maxBytes) diff))"

definition toDomain :: "CommitSuggestion \<Rightarrow> Suggestion" where
  "toDomain ps = \<lparr>Type = cType ps, Subject = cSubject ps, Body = cBody ps, Footer = cFooter ps\<rparr>"

text \<open>
  The loop of \<open>validateAndNormalize\<close>: \<open>n\<close> iterations are left, \<open>i\<close> is the index
  and \<open>result\<close> the slice filled so far.
\<close>

fun validateLoop ::
  "Lib \<Rightarrow> CommitSuggestion list \<Rightarrow> nat \<Rightarrow> nat \<Rightarrow> Suggestion list \<Rightarrow> error + Suggestion list"
where
  "validateLoop L portSuggestions 0 i result = Inr result"
| "validateLoop L portSuggestions (Suc n) i result =
     (let ps = portSuggestions ! i;
          ds = Normalize L (toDomain ps)
      in (case Validate ds of
            Some err \<Rightarrow> Inl (SuggestionValidationFailed i err)
          | None \<Rightarrow> validateLoop L portSuggestions n (Suc i) (result[i := ds])))"

definition validateAndNormalize :: "Lib \<Rightarrow> CommitSuggestion list \<Rightarrow> error + Suggestion list" where
  "validateAndNormalize L portSuggestions =
     (if length portSuggestions < 3 then Inl (Expected3Suggestions (length portSuggestions))
      else validateLoop L portSuggestions 3 0
             (replicate 3 \<lparr>Type = [], Subject = [], Body = [], Footer = []\<rparr>))"

text \<open>Step 3 of \<open>SuggestCommits\<close>: the cached value, if the cache is used and has one.\<close>

definition cacheLookup :: "SuggestService \<Rightarrow> World \<Rightarrow> string \<Rightarrow> CommitSuggestion list option" where
  "cacheLookup s w diffHash =
     (if useCache s \<and> cache s then
        (case InMemory_Get (cacheMap w) diffHash of Inr cached \<Rightarrow> Some cached | Inl err \<Rightarrow> None)
      else None)"

definition SuggestCommits ::
  "Lib \<Rightarrow> SuggestService \<Rightarrow> string \<Rightarrow> string \<Rightarrow> real \<Rightarrow> World
     \<Rightarrow> (error + Suggestion list) \<times> World"
where
  "SuggestCommits L s provider model temperature w =
     (case gitIsInRepository (git s) of
        Inl err \<Rightarrow> (Inl (FailedToCheckRepositoryStatus err), w)
      | Inr inRepo \<Rightarrow>
         (if \<not> inRepo then (Inl NotInAGitRepository, w)
          else
            (case gitStagedDiff (git s) of
               Inl err \<Rightarrow> (Inl (FailedToReadStagedDiff err), w)
             | Inr diff \<Rightarrow>
                (if diff = [] then (Inl NoStagedChanges, w)
                 else
                   (let diffHash = hashDiff L diff provider model in
                    (case cacheLookup s w diffHash of
                       Some cached \<Rightarrow> (validateAndNormalize L cached, w)
                     | None \<Rightarrow>
                        (case capDiff diff (diffCap s) of
                           Inl panic \<Rightarrow> (Inl panic, w)
                         | Inr cappedDiff \<Rightarrow>
                            (let redactedDiff = redactor s cappedDiff;
                                 fileList = [];
                                 input = \<lparr>StagedDiff = redactedDiff, FileList = fileList,
                                          Model = model, Temperature = temperature\<rparr>;
                                 w1 = w\<lparr>llmCalls := llmCalls w @ [input]\<rparr>
                             in (case llm s (llmCalls w) input of
                                   Inl err \<Rightarrow> (Inl (LLMError err), w1)
                                 | Inr llmSuggestions \<Rightarrow>
                                    (case validateAndNormalize L llmSuggestions of
                                       Inl err \<Rightarrow> (Inl (InvalidSuggestionsFromLLM err), w1)
                                     | Inr result \<Rightarrow>
                                        (Inr result,
                                         if useCache s \<and> cache s
                                         then w1\<lparr>cacheMap :=
                                                   InMemory_Set (cacheMap w1) diffHash
                                                     llmSuggestions\<rparr>
                                         else w1)))))))))))"

text \<open>\<open>NewApp\<close> wires the redactor with the default patterns into the service.\<close>

definition NewApp ::
  "(SuggestInput list \<Rightarrow> SuggestInput \<Rightarrow> string + CommitSuggestion list) \<Rightarrow> Git \<Rightarrow> bool \<Rightarrow> int
     \<Rightarrow> bool \<Rightarrow> SuggestService"
where
  "NewApp llm0 git0 cache0 diffCap0 useCache0 =
     \<lparr>llm = llm0, git = git0, redactor = Redact NewRedactor, cache = cache0,
      diffCap = diffCap0, useCache = useCache0\<rparr>"

text \<open>\<open>CommitService.Commit\<close>; the service holds the git port.\<close>

definition Commit :: "Git \<Rightarrow> string \<Rightarrow> bool \<Rightarrow> World \<Rightarrow> (error + string) \<times> World" where
  "Commit g message dryRun w =
     (if message = [] then (Inl CommitMessageCannotBeEmpty, w)
      else
        let w1 = w\<lparr>gitCommits := gitCommits w @ [(message, dryRun)]\<rparr>
        in (case gitCommit g message dryRun of
              Inl err \<Rightarrow> (Inl (GitCommitFailed err), w1)
            | Inr hash \<Rightarrow> (Inr hash, w1)))"

section \<open>The language of a pattern\<close>

text \<open>
  \<open>mat r w\<close>: the string \<open>w\<close>, as a whole, matches the pattern \<open>r\<close>. This is the
  usual language of a regular expression; \<open>ms\<close> finds exactly its members
  (\<open>ms_sound\<close>, \<open>ms_complete\<close>).
\<close>

inductive mat :: "regex \<Rightarrow> string \<Rightarrow> bool" where
  mat_Lit: "mat (Lit p) p"
| mat_Cls: "P c \<Longrightarrow> mat (Cls P) [c]"
| mat_Cat: "mat a u \<Longrightarrow> mat b v \<Longrightarrow> mat (Cat a b) (u @ v)"
| mat_Alt1: "mat a u \<Longrightarrow> mat (Alt a b) u"
| mat_Alt2: "mat b u \<Longrightarrow> mat (Alt a b) u"
| mat_Star0: "mat (Star a) []"
| mat_Star: "mat a u \<Longrightarrow> u \<noteq> [] \<Longrightarrow> mat (Star a) v \<Longrightarrow> mat (Star a) (u @ v)"

text \<open>
  Bounds on the matches of a pattern, computed from the pattern: a lower bound on their
  length, the bytes that may occur in them, and the bytes they may start and end with.
\<close>

primrec minLen :: "regex \<Rightarrow> nat" where
  "minLen (Lit p) = length p"
| "minLen (Cls P) = 1"
| "minLen (Cat a b) = minLen a + minLen b"
| "minLen (Alt a b) = min (minLen a) (minLen b)"
| "minLen (Star a) = 0"

primrec bytesOf :: "regex \<Rightarrow> char \<Rightarrow> bool" where
  "bytesOf (Lit p) c = (c \<in> set p)"
| "bytesOf (Cls P) c = P c"
| "bytesOf (Cat a b) c = (bytesOf a c \<or> bytesOf b c)"
| "bytesOf (Alt a b) c = (bytesOf a c \<or> bytesOf b c)"
| "bytesOf (Star a) c = bytesOf a c"

primrec firsts :: "regex \<Rightarrow> char \<Rightarrow> bool" where
  "firsts (Lit p) c = (p \<noteq> [] \<and> c = hd p)"
| "firsts (Cls P) c = P c"
| "firsts (Cat a b) c = (firsts a c \<or> (minLen a = 0 \<and> firsts b c))"
| "firsts (Alt a b) c = (firsts a c \<or> firsts b c)"
| "firsts (Star a) c = firsts a c"

primrec lasts :: "regex \<Rightarrow> char \<Rightarrow> bool" where
  "lasts (Lit p) c = (p \<noteq> [] \<and> c = last p)"
| "lasts (Cls P) c = P c"
| "lasts (Cat a b) c = (lasts b c \<or> (minLen b = 0 \<and> lasts a c))"
| "lasts (Alt a b) c = (lasts a c \<or> lasts b c)"
| "lasts (Star a) c = lasts a c"

text \<open>
  \<open>apart pl w\<close>: no occurrence of \<open>w\<close> in a text can overlap an occurrence of \<open>pl\<close>.
  \<open>safe p\<close> is a test on a pattern that makes every match of it that does not contain
  the placeholder stand apart from the placeholder (\<open>safe_apart\<close>).
\<close>

definition apart :: "string \<Rightarrow> string \<Rightarrow> bool" where
  "apart pl w \<longleftrightarrow>
     w \<noteq> [] \<and> \<not> sublist pl w \<and> \<not> sublist w pl
     \<and> (\<forall>u. u \<noteq> [] \<and> suffix u w \<longrightarrow> \<not> prefix u pl)
     \<and> (\<forall>u. u \<noteq> [] \<and> prefix u w \<longrightarrow> \<not> suffix u pl)"

definition safe :: "regex \<Rightarrow> bool" where
  "safe p \<longleftrightarrow>
     0 < minLen p
     \<and> ((\<not> bytesOf p CHR ''['' \<and> \<not> bytesOf p CHR '']'' \<and> length placeholder < minLen p)
        \<or> list_all (\<lambda>c. \<not> firsts p c \<and> \<not> lasts p c) placeholder)"

section \<open>Test doubles\<close>

text \<open>
  The doubles of the test suite: a provider that returns a fixed list of candidates, a git
  port with a fixed staged diff, the sample response, and a world with an empty cache.
  \<open>exampleLib\<close> stands for the two library parameters where an example is evaluated:
  the examples are ASCII, and the stand-in for the hash has no collisions.
\<close>

definition SampleLLMResponse :: "CommitSuggestion list" where
  "SampleLLMResponse =
     [\<lparr>cType = ''feat'', cSubject = ''add LLM provider abstraction'',
       cBody = ''Implement ports.LLM interface to support multiple providers like OpenAI and Groq.'',
       cFooter = []\<rparr>,
      \<lparr>cType = ''fix'', cSubject = ''handle empty staged diff'', cBody = [], cFooter = []\<rparr>,
      \<lparr>cType = ''refactor'', cSubject = ''split redaction into security package'',
       cBody = ''Move redaction logic into internal/security for better organization.'',
       cFooter = ''BREAKING CHANGE: redaction API moved''\<rparr>]"

definition FakeLLM ::
  "CommitSuggestion list \<Rightarrow> SuggestInput list \<Rightarrow> SuggestInput \<Rightarrow> string + CommitSuggestion list"
where
  "FakeLLM suggestions calls input = Inr suggestions"

definition FakeGit :: "string \<Rightarrow> bool \<Rightarrow> Git" where
  "FakeGit stagedDiffContent isInRepoValue =
     \<lparr>gitIsInRepository = Inr isInRepoValue, gitStagedDiff = Inr stagedDiffContent,
      gitCommit = (\<lambda>message dryRun. Inr ''abc123def456'')\<rparr>"

definition newWorld :: World where
  "newWorld = \<lparr>cacheMap = NewInMemory, llmCalls = [], gitCommits = []\<rparr>"

definition exampleLib :: Lib where
  "exampleLib = \<lparr>unicodeToLower = (\<lambda>s. s), sha256 = (\<lambda>s. s)\<rparr>"

definition fourCandidates :: "CommitSuggestion list" where
  "fourCandidates =
     SampleLLMResponse
       @ [\<lparr>cType = ''docs'', cSubject = ''a fourth candidate'', cBody = [], cFooter = []\<rparr>]"

definition oneInvalid :: "CommitSuggestion list" where
  "oneInvalid =
     [SampleLLMResponse ! 0,
      \<lparr>cType = ''invalid_type'', cSubject = ''bad suggestion'', cBody = [], cFooter = []\<rparr>,
      SampleLLMResponse ! 2]"

definition longSubject :: Suggestion where
  "longSubject =
     \<lparr>Type = '' FEAT '', Subject = ''  '' @ replicate 80 CHR ''a'' @ '' '',
      Body = ''  some body  '', Footer = ''  BREAKING CHANGE: details  ''\<rparr>"

definition exampleService :: "CommitSuggestion list \<Rightarrow> string \<Rightarrow> int \<Rightarrow> SuggestService" where
  "exampleService suggestions diff cap = NewApp (FakeLLM suggestions) (FakeGit diff True) True cap True"

definition exampleCall :: "SuggestService \<Rightarrow> World \<Rightarrow> (error + Suggestion list) \<times> World" where
  "exampleCall s w = SuggestCommits exampleLib s ''openai'' ''gpt-4o-mini'' 0.7 w"

definition exampleInput :: "string \<Rightarrow> SuggestInput" where
  "exampleInput text =
     \<lparr>StagedDiff = text, FileList = [], Model = ''gpt-4o-mini'', Temperature = 0.7\<rparr>"

text \<open>Diffs for the examples of redaction and capping; \<open>jsonKey v\<close> is \<open>"api_key": "v"\<close>.\<close>

definition jsonKey :: "string \<Rightarrow> string" where
  "jsonKey v = [CHR 0x22] @ ''api_key'' @ [CHR 0x22] @ '': '' @ [CHR 0x22] @ v @ [CHR 0x22]"

definition pwdDiff :: string where
  "pwdDiff = ''pwd:'' @ [CHR 0x22] @ ''x'' @ [CHR 0x22]"

definition secretDiff :: string where
  "secretDiff = ''+key = sk-abcdefghijklmnopqrstuvwx''"

definition largeDiff :: string where
  "largeDiff = concat (replicate 3 ''// This is a very long comment line that repeats\<newline>'')"

section \<open>Properties of the library functions\<close>

lemma spaceRunes_nonempty: "p \<in> set spaceRunes \<Longrightarrow> p \<noteq> []"
  by (auto simp: spaceRunes_def)

lemma find_SomeD: "find P xs = Some x \<Longrightarrow> x \<in> set xs \<and> P x"
  by (induction xs) (auto split: if_splits)

lemma find_NoneD: "find P xs = None \<Longrightarrow> \<forall>x \<in> set xs. \<not> P x"
  by (induction xs) (auto split: if_splits)

lemma find_NoneI: "\<forall>x \<in> set xs. \<not> P x \<Longrightarrow> find P xs = None"
  by (induction xs) auto

lemma leadingSpace_zero: "leadingSpace s = 0 \<longleftrightarrow> (\<forall>p \<in> set spaceRunes. \<not> prefix p s)"
proof
  assume z: "leadingSpace s = 0"
  show "\<forall>p \<in> set spaceRunes. \<not> prefix p s"
  proof (cases "find (\<lambda>p. prefix p s) spaceRunes")
    case None
    then show ?thesis by (rule find_NoneD)
  next
    case (Some p)
    with z have "p = []" by (simp add: leadingSpace_def)
    moreover from Some have "p \<in> set spaceRunes" by (simp add: find_SomeD)
    ultimately show ?thesis using spaceRunes_nonempty by blast
  qed
next
  assume "\<forall>p \<in> set spaceRunes. \<not> prefix p s"
  then have "find (\<lambda>p. prefix p s) spaceRunes = None" by (rule find_NoneI)
  then show "leadingSpace s = 0" by (simp add: leadingSpace_def)
qed

lemma leadingSpace_pos:
  assumes "leadingSpace s \<noteq> 0"
  shows "take (leadingSpace s) s \<in> set spaceRunes"
proof (cases "find (\<lambda>p. prefix p s) spaceRunes")
  case None
  with assms show ?thesis by (simp add: leadingSpace_def)
next
  case (Some p)
  then have "p \<in> set spaceRunes" "prefix p s"
    using find_SomeD [of "\<lambda>p. prefix p s" spaceRunes p] by simp_all
  moreover from Some have "leadingSpace s = length p" by (simp add: leadingSpace_def)
  ultimately show ?thesis by (auto simp: prefix_def)
qed

lemma trailingSpace_zero: "trailingSpace s = 0 \<longleftrightarrow> (\<forall>p \<in> set spaceRunes. \<not> suffix p s)"
proof
  assume z: "trailingSpace s = 0"
  show "\<forall>p \<in> set spaceRunes. \<not> suffix p s"
  proof (cases "find (\<lambda>p. suffix p s) spaceRunes")
    case None
    then show ?thesis by (rule find_NoneD)
  next
    case (Some p)
    with z have "p = []" by (simp add: trailingSpace_def)
    moreover from Some have "p \<in> set spaceRunes" by (simp add: find_SomeD)
    ultimately show ?thesis using spaceRunes_nonempty by blast
  qed
next
  assume "\<forall>p \<in> set spaceRunes. \<not> suffix p s"
  then have "find (\<lambda>p. suffix p s) spaceRunes = None" by (rule find_NoneI)
  then show "trailingSpace s = 0" by (simp add: trailingSpace_def)
qed

lemma trailingSpace_pos:
  assumes "trailingSpace s \<noteq> 0"
  shows "drop (length s - trailingSpace s) s \<in> set spaceRunes"
proof (cases "find (\<lambda>p. suffix p s) spaceRunes")
  case None
  with assms show ?thesis by (simp add: trailingSpace_def)
next
  case (Some p)
  then have "p \<in> set spaceRunes" "suffix p s"
    using find_SomeD [of "\<lambda>p. suffix p s" spaceRunes p] by simp_all
  moreover from Some have "trailingSpace s = length p" by (simp add: trailingSpace_def)
  ultimately show ?thesis by (auto simp: suffix_def)
qed

lemma white_append: "white a \<Longrightarrow> white b \<Longrightarrow> white (a @ b)"
  by (induction rule: white.induct) (auto intro: white_Cons)

lemma white_single: "p \<in> set spaceRunes \<Longrightarrow> white p"
  using white_Cons [OF _ white_Nil] by simp

lemma trimLeftFuel_split:
  "\<exists>l. s = l @ trimLeftFuel k s \<and> white l"
proof (induction k arbitrary: s)
  case 0
  show ?case by (auto intro: white_Nil)
next
  case (Suc k)
  show ?case
  proof (cases "leadingSpace s = 0")
    case True
    then show ?thesis by (auto intro: white_Nil)
  next
    case False
    from Suc [of "drop (leadingSpace s) s"] obtain l where
      l: "drop (leadingSpace s) s = l @ trimLeftFuel k (drop (leadingSpace s) s)" "white l"
      by blast
    have "s = take (leadingSpace s) s @ drop (leadingSpace s) s" by simp
    with l have "s = (take (leadingSpace s) s @ l) @ trimLeftFuel (Suc k) s"
      using False by (metis append.assoc trimLeftFuel.simps(2))
    moreover have "white (take (leadingSpace s) s @ l)"
      using leadingSpace_pos [OF False] l(2) by (rule white_Cons)
    ultimately show ?thesis by blast
  qed
qed

lemma trimLeftFuel_done:
  "length s \<le> k \<Longrightarrow> leadingSpace (trimLeftFuel k s) = 0"
proof (induction k arbitrary: s)
  case 0
  then show ?case by (simp add: leadingSpace_zero spaceRunes_nonempty)
next
  case (Suc k)
  show ?case
  proof (cases "leadingSpace s = 0")
    case True
    then show ?thesis by simp
  next
    case False
    with Suc.prems have "length (drop (leadingSpace s) s) \<le> k" by simp
    from Suc.IH [OF this] False show ?thesis by simp
  qed
qed

lemma trimRightFuel_split:
  "\<exists>r. s = trimRightFuel k s @ r \<and> white r"
proof (induction k arbitrary: s)
  case 0
  show ?case by (auto intro: white_Nil)
next
  case (Suc k)
  show ?case
  proof (cases "trailingSpace s = 0")
    case True
    then show ?thesis by (auto intro: white_Nil)
  next
    case False
    let ?t = "take (length s - trailingSpace s) s"
    from Suc [of ?t] obtain r where r: "?t = trimRightFuel k ?t @ r" "white r"
      by blast
    have "s = ?t @ drop (length s - trailingSpace s) s" by simp
    with r have "s = trimRightFuel (Suc k) s @ (r @ drop (length s - trailingSpace s) s)"
      using False by (metis append.assoc trimRightFuel.simps(2))
    moreover have "white (r @ drop (length s - trailingSpace s) s)"
      using r(2) white_single [OF trailingSpace_pos [OF False]] by (rule white_append)
    ultimately show ?thesis by blast
  qed
qed

lemma trimRightFuel_done:
  "length s \<le> k \<Longrightarrow> trailingSpace (trimRightFuel k s) = 0"
proof (induction k arbitrary: s)
  case 0
  then show ?case by (simp add: trailingSpace_zero spaceRunes_nonempty)
next
  case (Suc k)
  show ?case
  proof (cases "trailingSpace s = 0")
    case True
    then show ?thesis by simp
  next
    case False
    with Suc.prems have "length (take (length s - trailingSpace s) s) \<le> k" by simp
    from Suc.IH [OF this] False show ?thesis by simp
  qed
qed

lemma TrimSpace_split: "\<exists>l r. s = l @ TrimSpace s @ r \<and> white l \<and> white r"
proof -
  obtain l where l: "s = l @ trimLeftFuel (length s) s" "white l"
    using trimLeftFuel_split by blast
  let ?t = "trimLeftFuel (length s) s"
  obtain r where r: "?t = trimRightFuel (length ?t) ?t @ r" "white r"
    using trimRightFuel_split by blast
  have "TrimSpace s = trimRightFuel (length ?t) ?t" by (simp add: TrimSpace_def Let_def)
  with l r show ?thesis by metis
qed

lemma TrimSpace_no_trailing: "trailingSpace (TrimSpace s) = 0"
  by (simp add: TrimSpace_def Let_def trimRightFuel_done)

lemma upper_set: "rng CHR ''A'' CHR ''Z'' d \<longleftrightarrow> d \<in> set ''ABCDEFGHIJKLMNOPQRSTUVWXYZ''"
proof
  assume "d \<in> set ''ABCDEFGHIJKLMNOPQRSTUVWXYZ''"
  then show "rng CHR ''A'' CHR ''Z'' d" by (auto simp: rng_def byte_def)
next
  assume a: "rng CHR ''A'' CHR ''Z'' d"
  obtain b0 b1 b2 b3 b4 b5 b6 b7 where d: "d = Char b0 b1 b2 b3 b4 b5 b6 b7" by (cases d)
  from a show "d \<in> set ''ABCDEFGHIJKLMNOPQRSTUVWXYZ''"
    unfolding d rng_def byte_def
    by (cases b0; cases b1; cases b2; cases b3; cases b4; cases b5; cases b6; cases b7) simp_all
qed

lemma lowerASCII_not_upper: "\<not> rng CHR ''A'' CHR ''Z'' (lowerASCII c)"
proof (cases "c \<in> set ''ABCDEFGHIJKLMNOPQRSTUVWXYZ''")
  case True
  then show ?thesis by (auto simp: lowerASCII_def rng_def byte_def)
next
  case False
  then have "lowerASCII c = c" by (auto simp: lowerASCII_def)
  with False show ?thesis by (simp add: upper_set)
qed

section \<open>Properties of the patterns and of the redactor\<close>

lemma star_zero: "0 \<in> set (star f k s)"
  by (cases k) simp_all

lemma star_Suc_iff:
  "n \<in> set (star f (Suc k) s) \<longleftrightarrow>
     n = 0 \<or> (\<exists>n1 m. n = n1 + m \<and> n1 \<in> set (f s) \<and> n1 \<noteq> 0 \<and> m \<in> set (star f k (drop n1 s)))"
  by (auto split: if_splits)

lemma star_fuel_mono: "k \<le> k' \<Longrightarrow> n \<in> set (star f k s) \<Longrightarrow> n \<in> set (star f k' s)"
proof (induction k arbitrary: k' s n)
  case 0
  then show ?case by (simp add: star_zero)
next
  case (Suc k)
  from Suc.prems(1) obtain k'' where k': "k' = Suc k''" "k \<le> k''" by (cases k') auto
  from Suc.prems(2) consider "n = 0"
    | n1 m where "n = n1 + m" "n1 \<in> set (f s)" "n1 \<noteq> 0" "m \<in> set (star f k (drop n1 s))"
    unfolding star_Suc_iff by blast
  then show ?case
  proof cases
    case 1
    then show ?thesis by (simp add: star_zero)
  next
    case 2
    from Suc.IH [OF k'(2) 2(4)] 2(1,2,3) show ?thesis
      unfolding k'(1) star_Suc_iff by blast
  qed
qed

lemma ms_Cat_iff:
  "n \<in> set (ms (Cat a b) s) \<longleftrightarrow>
     (\<exists>n1 n2. n = n1 + n2 \<and> n1 \<in> set (ms a s) \<and> n2 \<in> set (ms b (drop n1 s)))"
  by auto

lemma star_le:
  assumes "\<And>s n. n \<in> set (f s) \<Longrightarrow> n \<le> length s"
  shows "n \<in> set (star f k s) \<Longrightarrow> n \<le> length s"
proof (induction k arbitrary: s n)
  case 0
  then show ?case by simp
next
  case (Suc k)
  from Suc.prems consider "n = 0"
    | n1 m where "n = n1 + m" "n1 \<in> set (f s)" "n1 \<noteq> 0" "m \<in> set (star f k (drop n1 s))"
    unfolding star_Suc_iff by blast
  then show ?case
  proof cases
    case 1
    then show ?thesis by simp
  next
    case 2
    from assms [OF 2(2)] Suc.IH [OF 2(4)] 2(1) show ?thesis by simp
  qed
qed

lemma ms_le: "n \<in> set (ms r s) \<Longrightarrow> n \<le> length s"
proof (induction r arbitrary: s n)
  case (Lit p)
  then show ?case by (auto simp: prefix_def split: if_splits)
next
  case (Cls P)
  then show ?case by (auto split: list.splits if_splits)
next
  case (Cat a b)
  from Cat.prems obtain n1 n2 where "n = n1 + n2" "n1 \<in> set (ms a s)" "n2 \<in> set (ms b (drop n1 s))"
    unfolding ms_Cat_iff by blast
  with Cat.IH(1) [of n1 s] Cat.IH(2) [of n2 "drop n1 s"] show ?case by simp
next
  case (Alt a b)
  then show ?case by auto
next
  case (Star a)
  then show ?case using star_le [of "ms a"] by simp
qed

lemma star_sound:
  assumes "\<And>s n. n \<in> set (f s) \<Longrightarrow> n \<le> length s \<and> mat a (take n s)"
  shows "n \<in> set (star f k s) \<Longrightarrow> mat (Star a) (take n s)"
proof (induction k arbitrary: s n)
  case 0
  then show ?case by (simp add: mat_Star0)
next
  case (Suc k)
  from Suc.prems consider "n = 0"
    | n1 m where "n = n1 + m" "n1 \<in> set (f s)" "n1 \<noteq> 0" "m \<in> set (star f k (drop n1 s))"
    unfolding star_Suc_iff by blast
  then show ?case
  proof cases
    case 1
    then show ?thesis by (simp add: mat_Star0)
  next
    case 2
    from assms [OF 2(2)] have a: "n1 \<le> length s" "mat a (take n1 s)" by simp_all
    with 2(3) have ne: "take n1 s \<noteq> []" by auto
    have "take n s = take n1 s @ take m (drop n1 s)" by (simp add: 2(1) take_add)
    with mat_Star [OF a(2) ne Suc.IH [OF 2(4)]] show ?thesis by simp
  qed
qed

lemma ms_sound: "n \<in> set (ms r s) \<Longrightarrow> mat r (take n s)"
proof (induction r arbitrary: s n)
  case (Lit p)
  then show ?case by (auto simp: prefix_def mat_Lit split: if_splits)
next
  case (Cls P)
  then show ?case by (auto simp: mat_Cls split: list.splits if_splits)
next
  case (Cat a b)
  from Cat.prems obtain n1 n2 where n: "n = n1 + n2" "n1 \<in> set (ms a s)" "n2 \<in> set (ms b (drop n1 s))"
    unfolding ms_Cat_iff by blast
  have "take n s = take n1 s @ take n2 (drop n1 s)" by (simp add: n(1) take_add)
  with mat_Cat [OF Cat.IH(1) [OF n(2)] Cat.IH(2) [OF n(3)]] show ?case by simp
next
  case (Alt a b)
  then show ?case by (auto intro: mat_Alt1 mat_Alt2)
next
  case (Star a)
  then show ?case using star_sound [of "ms a" a] ms_le by simp
qed

lemma ms_complete: "mat r w \<Longrightarrow> length w \<in> set (ms r (w @ t))"
proof (induction arbitrary: t rule: mat.induct)
  case (mat_Lit p)
  then show ?case by simp
next
  case (mat_Cls P c)
  then show ?case by simp
next
  case (mat_Cat a u b v)
  from mat_Cat.IH(1) [of "v @ t"] mat_Cat.IH(2) [of t] show ?case
    unfolding ms_Cat_iff by (intro exI [of _ "length u"] exI [of _ "length v"]) simp
next
  case (mat_Alt1 a u b)
  then show ?case by simp
next
  case (mat_Alt2 b u a)
  then show ?case by simp
next
  case (mat_Star0 a)
  then show ?case by (simp add: star_zero)
next
  case (mat_Star a u v)
  obtain k where k: "length (u @ v @ t) = Suc k" "length (v @ t) \<le> k"
    using mat_Star.hyps(2) by (cases u) auto
  from mat_Star.IH(2) [of t] have "length v \<in> set (star (ms a) (length (v @ t)) (v @ t))" by simp
  then have "length v \<in> set (star (ms a) k (v @ t))" using k(2) star_fuel_mono by blast
  moreover from mat_Star.IH(1) [of "v @ t"] have "length u \<in> set (ms a (u @ v @ t))" by simp
  moreover have "length u \<noteq> 0" using mat_Star.hyps(2) by simp
  ultimately have "length u + length v \<in> set (star (ms a) (Suc k) (u @ v @ t))"
    unfolding star_Suc_iff by (intro disjI2 exI [of _ "length u"] exI [of _ "length v"]) simp
  with k(1) show ?case by simp
qed

lemma ms_minLen: "n \<in> set (ms r s) \<Longrightarrow> minLen r \<le> n"
proof (induction r arbitrary: s n)
  case (Cat a b)
  from Cat.prems obtain n1 n2 where n: "n = n1 + n2" "n1 \<in> set (ms a s)" "n2 \<in> set (ms b (drop n1 s))"
    unfolding ms_Cat_iff by blast
  with Cat.IH(1) [of n1 s] Cat.IH(2) [of n2 "drop n1 s"] show ?case by simp
next
  case (Alt a b)
  then show ?case by (fastforce simp: min_le_iff_disj)
qed (auto split: if_splits list.splits)

lemma mat_minLen: "mat r w \<Longrightarrow> minLen r \<le> length w"
  by (induction rule: mat.induct) auto

lemma mat_bytesOf: "mat r w \<Longrightarrow> c \<in> set w \<Longrightarrow> bytesOf r c"
  by (induction rule: mat.induct) auto

lemma mat_firsts: "mat r w \<Longrightarrow> w \<noteq> [] \<Longrightarrow> firsts r (hd w)"
proof (induction rule: mat.induct)
  case (mat_Cat a u b v)
  then show ?case using mat_minLen [of a u] by (cases u) auto
next
  case (mat_Star a u v)
  then show ?case by (cases u) auto
qed auto

lemma mat_lasts: "mat r w \<Longrightarrow> w \<noteq> [] \<Longrightarrow> lasts r (last w)"
proof (induction rule: mat.induct)
  case (mat_Cat a u b v)
  then show ?case using mat_minLen [of b v] by (cases "v = []") auto
next
  case (mat_Star a u v)
  then show ?case by (cases "v = []") auto
qed auto

lemma ms_nonzero: "0 < minLen r \<Longrightarrow> n \<in> set (ms r s) \<Longrightarrow> n \<noteq> 0"
  using ms_minLen [of n r s] by auto

lemma Replace_Nil: "ReplaceAllString r [] repl = []"
  by simp

lemma Replace_copy:
  "ms r (c # cs) = [] \<Longrightarrow> ReplaceAllString r (c # cs) repl = c # ReplaceAllString r cs repl"
  by simp

lemma Replace_match:
  "0 < minLen r \<Longrightarrow> ms r (c # cs) = n # ns \<Longrightarrow>
     ReplaceAllString r (c # cs) repl = repl @ ReplaceAllString r (drop (n - 1) cs) repl"
  using ms_nonzero [of r n "c # cs"] by simp

lemma prefix_append_cases: "prefix v (a @ b) \<Longrightarrow> prefix v a \<or> prefix a v"
  by (metis prefix_append prefix_def)

lemma prefix_Replace:
  assumes "0 < minLen r" and "apart pl w"
  shows "suffix v w \<Longrightarrow> v \<noteq> [] \<Longrightarrow> prefix v (ReplaceAllString r t pl)
           \<Longrightarrow> prefix v t \<and> ms r t = []"
proof (induction t arbitrary: v rule: length_induct)
  case (1 t)
  show ?case
  proof (cases t)
    case Nil
    with 1 show ?thesis by simp
  next
    case (Cons c cs)
    show ?thesis
    proof (cases "ms r (c # cs)")
      case Nil
      then have R: "ReplaceAllString r t pl = c # ReplaceAllString r cs pl"
        using Cons by simp
      from 1(3,4) R obtain v' where v: "v = c # v'" "prefix v' (ReplaceAllString r cs pl)"
        by (cases v) auto
      show ?thesis
      proof (cases "v' = []")
        case True
        with v Cons Nil show ?thesis by simp
      next
        case False
        have "suffix v' w" using 1(2) v(1) by (metis suffix_ConsD)
        with 1(1) False v(2) Cons have "prefix v' cs" by simp
        with v Cons Nil show ?thesis by simp
      qed
    next
      case (Cons n ns)
      then have R: "ReplaceAllString r t pl = pl @ ReplaceAllString r (drop (n - 1) cs) pl"
        using \<open>t = c # cs\<close> Replace_match [OF assms(1)] by simp
      with 1(4) consider "prefix v pl" | "prefix pl v"
        using prefix_append_cases by metis
      then show ?thesis
      proof cases
        case 1
        with \<open>suffix v w\<close> \<open>v \<noteq> []\<close> assms(2) show ?thesis by (auto simp: apart_def)
      next
        case 2
        then have "sublist pl w" using \<open>suffix v w\<close>
          by (meson prefix_imp_sublist sublist_order.order_trans suffix_imp_sublist)
        with assms(2) show ?thesis by (simp add: apart_def)
      qed
    qed
  qed
qed

lemma not_prefix_Replace:
  assumes "0 < minLen r" and "apart pl w" and "mat r w"
  shows "\<not> prefix w (ReplaceAllString r t pl)"
proof
  assume "prefix w (ReplaceAllString r t pl)"
  moreover have "w \<noteq> []" using assms(2) by (simp add: apart_def)
  ultimately have p: "prefix w t" "ms r t = []"
    using prefix_Replace [OF assms(1,2), of w t] by simp_all
  from p(1) obtain t' where "t = w @ t'" by (auto simp: prefix_def)
  with ms_complete [OF assms(3), of t'] p(2) show False by simp
qed

lemma sublist_Replace_cases:
  assumes "0 < minLen r" and "apart pl w"
  shows "sublist w (ReplaceAllString r t pl) \<Longrightarrow>
           \<exists>t'. suffix t' t \<and> prefix w (ReplaceAllString r t' pl)"
proof (induction t rule: length_induct)
  case (1 t)
  show ?case
  proof (cases t)
    case Nil
    with 1(2) show ?thesis by (auto intro: exI [of _ "[]"])
  next
    case (Cons c cs)
    show ?thesis
    proof (cases "ms r (c # cs)")
      case Nil
      then have R: "ReplaceAllString r t pl = c # ReplaceAllString r cs pl"
        using Cons by simp
      with 1(2) consider "prefix w (ReplaceAllString r t pl)"
        | "sublist w (ReplaceAllString r cs pl)"
        by (auto simp: sublist_Cons_right)
      then show ?thesis
      proof cases
        case 1
        then show ?thesis by (auto intro: exI [of _ t])
      next
        case 2
        with 1(1) Cons obtain t' where "suffix t' cs" "prefix w (ReplaceAllString r t' pl)"
          by auto
        then show ?thesis using Cons by (auto intro: suffix_ConsI)
      qed
    next
      case (Cons n ns)
      let ?y = "ReplaceAllString r (drop (n - 1) cs) pl"
      from Cons have R: "ReplaceAllString r t pl = pl @ ?y"
        using \<open>t = c # cs\<close> Replace_match [OF assms(1)] by simp
      with 1(2) have "sublist w (pl @ ?y)" by simp
      then consider "sublist w pl" | "sublist w ?y"
        | u v where "w = u @ v" "suffix u pl" "prefix v ?y"
        using sublist_append [of w pl ?y] by blast
      then show ?thesis
      proof cases
        case 1
        with assms(2) show ?thesis by (simp add: apart_def)
      next
        case 2
        have "length (drop (n - 1) cs) < length t" using \<open>t = c # cs\<close> by simp
        with 1(1) 2 obtain t' where "suffix t' (drop (n - 1) cs)"
          "prefix w (ReplaceAllString r t' pl)" by blast
        moreover have "suffix (drop (n - 1) cs) t" using \<open>t = c # cs\<close>
          by (simp add: suffix_ConsI suffix_drop)
        ultimately show ?thesis using suffix_order.trans by blast
      next
        case 3
        show ?thesis
        proof (cases "u = []")
          case True
          with 3 have "prefix w ?y" by simp
          moreover have "suffix (drop (n - 1) cs) t" using \<open>t = c # cs\<close>
            by (simp add: suffix_ConsI suffix_drop)
          ultimately show ?thesis by blast
        next
          case False
          with 3 assms(2) show ?thesis by (auto simp: apart_def)
        qed
      qed
    qed
  qed
qed

lemma Replace_destroys:
  assumes "0 < minLen r" and "apart pl w" and "mat r w"
  shows "\<not> sublist w (ReplaceAllString r t pl)"
  using sublist_Replace_cases [OF assms(1,2)] not_prefix_Replace [OF assms] by blast

lemma Replace_preserves:
  assumes "0 < minLen r" and "apart pl w" and "\<not> sublist w t"
  shows "\<not> sublist w (ReplaceAllString r t pl)"
proof
  assume "sublist w (ReplaceAllString r t pl)"
  then obtain t' where t': "suffix t' t" "prefix w (ReplaceAllString r t' pl)"
    using sublist_Replace_cases [OF assms(1,2)] by blast
  moreover have "w \<noteq> []" using assms(2) by (simp add: apart_def)
  ultimately have "prefix w t'" using prefix_Replace [OF assms(1,2), of w t'] by simp
  with t'(1) have "sublist w t"
    by (meson prefix_imp_sublist sublist_order.order_trans suffix_imp_sublist)
  with assms(3) show False by simp
qed

lemma RedactLoop_preserves:
  assumes "\<forall>p \<in> set ps. 0 < minLen p" and "apart placeholder w" and "\<not> sublist w t"
  shows "\<not> sublist w (RedactLoop ps t)"
  using assms by (induction ps arbitrary: t) (auto simp: Replace_preserves)

lemma RedactLoop_destroys:
  assumes "\<forall>p \<in> set ps. 0 < minLen p" and "apart placeholder w" and "p \<in> set ps" and "mat p w"
  shows "\<not> sublist w (RedactLoop ps t)"
  using assms
proof (induction ps arbitrary: t)
  case Nil
  then show ?case by simp
next
  case (Cons q ps)
  show ?case
  proof (cases "q = p")
    case True
    with Cons.prems have "\<not> sublist w (ReplaceAllString q t placeholder)"
      by (simp add: Replace_destroys)
    with Cons.prems show ?thesis by (simp add: RedactLoop_preserves)
  next
    case False
    with Cons show ?thesis by simp
  qed
qed

lemma prefix_hd: "prefix u v \<Longrightarrow> u \<noteq> [] \<Longrightarrow> hd u = hd v"
  by (auto simp: prefix_def)

lemma suffix_last: "suffix u v \<Longrightarrow> u \<noteq> [] \<Longrightarrow> last u = last v"
  by (auto simp: suffix_def)

lemma safe_apart:
  assumes "safe p" and "mat p w" and "\<not> sublist placeholder w"
  shows "apart placeholder w"
proof -
  from assms(1) have pos: "0 < minLen p" by (simp add: safe_def)
  with mat_minLen [OF assms(2)] have ne: "w \<noteq> []" by auto
  from assms(1) consider
    (A) "\<not> bytesOf p CHR ''[''" "\<not> bytesOf p CHR '']''" "length placeholder < minLen p"
    | (B) "\<forall>c \<in> set placeholder. \<not> firsts p c \<and> \<not> lasts p c"
    by (auto simp: safe_def list_all_iff)
  then show ?thesis
  proof cases
    case A
    have nb: "CHR ''['' \<notin> set w" "CHR '']'' \<notin> set w"
      using A(1,2) mat_bytesOf [OF assms(2)] by blast+
    have 1: "\<not> sublist w placeholder"
      using A(3) mat_minLen [OF assms(2)] sublist_length_le [of w placeholder] by auto
    have 2: "\<not> prefix u placeholder" if "u \<noteq> []" "suffix u w" for u
    proof
      assume "prefix u placeholder"
      with that(1) have "hd u = CHR ''[''" using prefix_hd [of u placeholder]
        by (simp add: placeholder_def)
      with that have "CHR ''['' \<in> set w"
        by (metis hd_in_set set_mono_suffix subsetD)
      with nb show False by simp
    qed
    have 3: "\<not> suffix u placeholder" if "u \<noteq> []" "prefix u w" for u
    proof
      assume "suffix u placeholder"
      with that(1) have "last u = CHR '']''" using suffix_last [of u placeholder]
        by (simp add: placeholder_def)
      with that have "CHR '']'' \<in> set w"
        by (metis last_in_set set_mono_prefix subsetD)
      with nb show False by simp
    qed
    from ne assms(3) 1 2 3 show ?thesis by (auto simp: apart_def)
  next
    case B
    have f: "firsts p (hd w)" "lasts p (last w)"
      using mat_firsts [OF assms(2) ne] mat_lasts [OF assms(2) ne] by simp_all
    have 1: "\<not> sublist w placeholder"
    proof
      assume "sublist w placeholder"
      then have "hd w \<in> set placeholder" using ne set_mono_sublist hd_in_set by blast
      with B f show False by blast
    qed
    have 2: "\<not> prefix u placeholder" if "u \<noteq> []" "suffix u w" for u
    proof
      assume "prefix u placeholder"
      then have "last u \<in> set placeholder" using that(1) set_mono_prefix last_in_set by blast
      with that have "last w \<in> set placeholder" by (simp add: suffix_last)
      with B f show False by blast
    qed
    have 3: "\<not> suffix u placeholder" if "u \<noteq> []" "prefix u w" for u
    proof
      assume "suffix u placeholder"
      then have "hd u \<in> set placeholder" using that(1) set_mono_suffix hd_in_set by blast
      with that have "hd w \<in> set placeholder" by (simp add: prefix_hd)
      with B f show False by blast
    qed
    from ne assms(3) 1 2 3 show ?thesis by (auto simp: apart_def)
  qed
qed

lemma safe_patOpenAI: "safe patOpenAI"
  by code_simp
lemma safe_patAWS: "safe patAWS"
  by code_simp
lemma safe_patBearer: "safe patBearer"
  by code_simp
lemma safe_patJSONKey: "safe patJSONKey"
  by code_simp
lemma safe_patPassword: "safe patPassword"
  by code_simp
lemma safe_patGoogle: "safe patGoogle"
  by code_simp
lemma safe_patGhp: "safe patGhp"
  by code_simp
lemma safe_patGhu: "safe patGhu"
  by code_simp
lemma safe_patPEM: "safe patPEM"
  by code_simp

lemma safe_NewRedactor: "p \<in> set NewRedactor \<Longrightarrow> safe p"
  using safe_patOpenAI safe_patAWS safe_patBearer safe_patJSONKey safe_patPassword
    safe_patGoogle safe_patGhp safe_patGhu safe_patPEM
  by (auto simp: NewRedactor_def)

lemma patterns_nonempty: "p \<in> set NewRedactor \<Longrightarrow> 0 \<notin> set (ms p s)"
  using safe_NewRedactor [of p] ms_nonzero [of p 0 s] by (auto simp: safe_def)

lemma Redact_removes_secret:
  assumes "p \<in> set NewRedactor" and "mat p w" and "\<not> sublist placeholder w"
  shows "\<not> sublist w (Redact NewRedactor t)"
proof -
  have "\<forall>q \<in> set NewRedactor. 0 < minLen q" using safe_NewRedactor by (auto simp: safe_def)
  moreover have "apart placeholder w"
    using safe_apart [OF safe_NewRedactor [OF assms(1)] assms(2,3)] .
  ultimately show ?thesis
    unfolding Redact_def using assms(1,2) by (rule RedactLoop_destroys)
qed

lemma Replace_no_match: "\<not> MatchString r t \<Longrightarrow> ReplaceAllString r t repl = t"
  by (induction t) auto

lemma Redact_nothing: "\<not> Contains ps t \<Longrightarrow> Redact ps t = t"
  unfolding Contains_def Redact_def
  by (induction ps) (auto simp: Replace_no_match split: if_splits)

lemma Replace_length:
  assumes "0 < m" and "m \<le> minLen r"
  shows "length (ReplaceAllString r t repl) \<le> length t + (length repl - m) * (length t div m)"
proof (induction t rule: length_induct)
  case (1 t)
  let ?d = "length repl - m"
  show ?case
  proof (cases t)
    case Nil
    then show ?thesis by simp
  next
    case (Cons c cs)
    show ?thesis
    proof (cases "ms r (c # cs)")
      case Nil
      then have e: "ReplaceAllString r t repl = c # ReplaceAllString r cs repl"
        using Cons by simp
      from 1 Cons have i: "length (ReplaceAllString r cs repl) \<le> length cs + ?d * (length cs div m)"
        by simp
      have "length cs div m \<le> Suc (length cs) div m" by (simp add: div_le_mono)
      then have j: "?d * (length cs div m) \<le> ?d * (Suc (length cs) div m)" by simp
      have "length (ReplaceAllString r t repl) = Suc (length (ReplaceAllString r cs repl))"
        using e by simp
      also have "\<dots> \<le> Suc (length cs + ?d * (length cs div m))" using i by simp
      also have "\<dots> \<le> Suc (length cs + ?d * (Suc (length cs) div m))" using j by simp
      also have "\<dots> = length t + ?d * (length t div m)" using Cons by simp
      finally show ?thesis .
    next
      case (Cons n ns)
      have pos: "0 < minLen r" using assms by simp
      from Cons have n: "n \<in> set (ms r t)" using \<open>t = c # cs\<close> by simp
      then have nm: "m \<le> n" "n \<le> length t"
        using ms_minLen [of n r t] ms_le [of n r t] assms(2) by simp_all
      let ?t' = "drop (n - 1) cs"
      have lt: "length ?t' = length t - n" using \<open>t = c # cs\<close> nm assms(1) by simp
      from Cons have R: "ReplaceAllString r t repl = repl @ ReplaceAllString r ?t' repl"
        using \<open>t = c # cs\<close> Replace_match [OF pos] by simp
      have "length ?t' < length t" using \<open>t = c # cs\<close> by simp
      with 1 have IH: "length (ReplaceAllString r ?t' repl) \<le> (length t - n) + ?d * ((length t - n) div m)"
        using lt by (metis)
      have a: "(length t - n) div m \<le> (length t - m) div m"
        using nm(1) by (simp add: div_le_mono)
      have b: "(length t - m) div m + 1 = length t div m"
        using nm assms(1) le_div_geq [of m "length t"] by simp
      show ?thesis
      proof (cases "length repl \<le> m")
        case True
        then have "?d = 0" by simp
        with IH R True nm show ?thesis by simp
      next
        case False
        then have d: "length repl = m + ?d" by simp
        have "length (ReplaceAllString r t repl)
                \<le> length repl + (length t - n) + ?d * ((length t - n) div m)"
          using R IH by simp
        also have "\<dots> \<le> (m + ?d) + (length t - m) + ?d * ((length t - m) div m)"
          using d nm(1) a by (simp add: add_le_mono)
        also have "\<dots> = length t + ?d * ((length t - m) div m + 1)"
          using nm by simp
        also have "\<dots> = length t + ?d * (length t div m)" using b by simp
        finally show ?thesis .
      qed
    qed
  qed
qed

lemma Replace_length_le:
  assumes "length repl \<le> minLen r" and "repl \<noteq> []"
  shows "length (ReplaceAllString r t repl) \<le> length t"
  using Replace_length [of "length repl" r t repl] assms by simp

lemma minLen_patterns:
  "10 \<le> minLen patOpenAI" "10 \<le> minLen patAWS" "10 \<le> minLen patBearer"
  "10 \<le> minLen patJSONKey" "7 \<le> minLen patPassword" "10 \<le> minLen patGoogle"
  "10 \<le> minLen patGhp" "10 \<le> minLen patGhu" "10 \<le> minLen patPEM"
  by code_simp+

lemma Redact_length: "length (Redact NewRedactor t) \<le> length t + 3 * (length t div 7)"
proof -
  have pl: "length placeholder = 10" "placeholder \<noteq> []" by (simp_all add: placeholder_def)
  define R where "R p s = ReplaceAllString p s placeholder" for p s
  have le: "length (R p s) \<le> length s" if "10 \<le> minLen p" for p s
    unfolding R_def using Replace_length_le [of placeholder p s] pl that by simp
  define t4 where "t4 = R patJSONKey (R patBearer (R patAWS (R patOpenAI t)))"
  define t5 where "t5 = R patPassword t4"
  have l4: "length t4 \<le> length t"
    unfolding t4_def using le minLen_patterns(1-4) by (meson le_trans)
  have "length t5 \<le> length t4 + (length placeholder - 7) * (length t4 div 7)"
    unfolding t5_def R_def using Replace_length [of 7 patPassword t4 placeholder] minLen_patterns(5)
    by simp
  then have l5: "length t5 \<le> length t + 3 * (length t div 7)"
    using l4 pl(1) div_le_mono [OF l4, of 7] by simp
  have "Redact NewRedactor t = R patPEM (R patGhu (R patGhp (R patGoogle t5)))"
    by (simp add: Redact_def NewRedactor_def R_def t5_def t4_def)
  then have "length (Redact NewRedactor t) \<le> length t5"
    using le minLen_patterns(6-9) by (metis le_trans)
  with l5 show ?thesis by simp
qed

lemma mat_eval: "length w \<in> set (ms r w) \<Longrightarrow> mat r w"
  using ms_sound [of "length w" r w] by simp

section \<open>Properties of the domain functions\<close>

text \<open>
  C10. \<open>Format\<close> renders \<open>"<type>: <subject>"\<close>, then a blank line and the body if the
  body is not empty, then a blank line and the footer if the footer is not empty; with
  both present the result is \<open>"type: subject\n\nbody\n\nfooter"\<close>. (It is a function of the
  suggestion alone, so it is deterministic.)
\<close>

theorem Format_renders:
  "Format s =
     Type s @ '': '' @ Subject s
       @ (if Body s \<noteq> [] then ''\<newline>\<newline>'' @ Body s else [])
       @ (if Footer s \<noteq> [] then ''\<newline>\<newline>'' @ Footer s else [])
   \<and> (Body s \<noteq> [] \<and> Footer s \<noteq> [] \<longrightarrow>
        Format s = Type s @ '': '' @ Subject s @ ''\<newline>\<newline>'' @ Body s
                     @ ''\<newline>\<newline>'' @ Footer s)"
  by (simp add: Format_def Let_def)

theorem Format_renders_witness:
  "Body \<lparr>Type = ''fix'', Subject = ''handle nil pointer'', Body = ''Added null check'',
          Footer = ''Closes #123''\<rparr> \<noteq> []
   \<and> Footer \<lparr>Type = ''fix'', Subject = ''handle nil pointer'', Body = ''Added null check'',
          Footer = ''Closes #123''\<rparr> \<noteq> []
   \<and> Format \<lparr>Type = ''fix'', Subject = ''handle nil pointer'', Body = ''Added null check'',
          Footer = ''Closes #123''\<rparr>
       = ''fix: handle nil pointer\<newline>\<newline>Added null check\<newline>\<newline>Closes #123''"
  using Format_renders [of "\<lparr>Type = ''fix'', Subject = ''handle nil pointer'',
          Body = ''Added null check'', Footer = ''Closes #123''\<rparr>"]
  by simp

lemma take3: "3 \<le> length ps \<Longrightarrow> take 3 ps = [ps ! 0, ps ! 1, ps ! 2]"
proof -
  assume a: "3 \<le> length ps"
  then obtain a0 r0 where p0: "ps = a0 # r0" by (cases ps) auto
  with a obtain a1 r1 where p1: "r0 = a1 # r1" by (cases r0) auto
  with a p0 obtain a2 r2 where p2: "r1 = a2 # r2" by (cases r1) auto
  show ?thesis by (simp add: p0 p1 p2 numeral_3_eq_3)
qed

lemma validateLoop3:
  "validateLoop L ps 3 0 [z0, z1, z2] =
     (case Validate (Normalize L (toDomain (ps ! 0))) of
        Some e \<Rightarrow> Inl (SuggestionValidationFailed 0 e)
      | None \<Rightarrow>
        (case Validate (Normalize L (toDomain (ps ! 1))) of
           Some e \<Rightarrow> Inl (SuggestionValidationFailed 1 e)
         | None \<Rightarrow>
           (case Validate (Normalize L (toDomain (ps ! 2))) of
              Some e \<Rightarrow> Inl (SuggestionValidationFailed 2 e)
            | None \<Rightarrow> Inr [Normalize L (toDomain (ps ! 0)), Normalize L (toDomain (ps ! 1)),
                            Normalize L (toDomain (ps ! 2))])))"
  by (simp add: numeral_3_eq_3 numeral_2_eq_2 Let_def split: option.splits)

lemma replicate3: "replicate 3 z = [z, z, z]"
  by (simp add: numeral_3_eq_3)

lemma validateAndNormalize_Inr:
  "validateAndNormalize L ps = Inr r \<longleftrightarrow>
     3 \<le> length ps \<and> r = map (\<lambda>p. Normalize L (toDomain p)) (take 3 ps)
     \<and> (\<forall>d \<in> set r. Validate d = None)"
proof (cases "3 \<le> length ps")
  case False
  then show ?thesis by (simp add: validateAndNormalize_def)
next
  case True
  then show ?thesis
    by (auto simp: validateAndNormalize_def replicate3 validateLoop3 take3 split: option.splits)
qed

lemma trimRightFuel_prefix: "prefix (trimRightFuel k s) s"
  using trimRightFuel_split [of s k] by (auto simp: prefix_def)

lemma TrimSpace_no_leading: "leadingSpace (TrimSpace s) = 0"
proof -
  let ?t = "trimLeftFuel (length s) s"
  have t: "leadingSpace ?t = 0" by (simp add: trimLeftFuel_done)
  have "prefix (TrimSpace s) ?t" by (simp add: TrimSpace_def Let_def trimRightFuel_prefix)
  with t show ?thesis
    unfolding leadingSpace_zero using prefix_order.trans by blast
qed

lemma TrimSpace_set: "set (TrimSpace s) \<subseteq> set s"
proof -
  obtain l r where "s = l @ TrimSpace s @ r" using TrimSpace_split by blast
  then have "set s = set l \<union> set (TrimSpace s) \<union> set r" by (metis set_append sup_assoc)
  then show ?thesis by blast
qed

lemma Normalize_fields:
  "Type (Normalize L s) = TrimSpace (ToLower L (Type s))"
  "Subject (Normalize L s) =
     (if 72 < length (TrimSpace (Subject s)) then take 72 (TrimSpace (Subject s))
      else TrimSpace (Subject s))"
  "Body (Normalize L s) = TrimSpace (Body s)"
  "Footer (Normalize L s) = TrimSpace (Footer s)"
  by (simp_all add: Normalize_def Let_def)

lemma Normalize_subject_le: "length (Subject (Normalize L s)) \<le> 72"
  by (simp add: Normalize_fields)

section \<open>Properties of the services\<close>

lemma SuggestCommits_Inr:
  assumes "fst (SuggestCommits L s provider model temperature w) = Inr result"
  shows "\<exists>cands. validateAndNormalize L cands = Inr result"
  using assms
  by (auto simp: SuggestCommits_def Let_def split: sum.splits if_splits option.splits)

lemma SuggestCommits_called:
  assumes "llmCalls (snd (SuggestCommits L s provider model temperature w)) = llmCalls w @ [input]"
    and "llm s (llmCalls w) input = Inr cands"
  shows "fst (SuggestCommits L s provider model temperature w)
           = (case validateAndNormalize L cands of
                Inl err \<Rightarrow> Inl (InvalidSuggestionsFromLLM err) | Inr result \<Rightarrow> Inr result)"
  using assms
  by (auto simp: SuggestCommits_def Let_def split: sum.splits if_splits option.splits)

text \<open>
  C1. A call of \<open>SuggestCommits\<close> returns an error or exactly 3 suggestions, each the
  normal form of a candidate and each accepted by \<open>Validate\<close>. Where the call hands an
  input to the provider and the provider answers with candidates: fewer than 3 candidates
  make the call fail with "expected 3 suggestions, got n" (wrapped as "invalid suggestions
  from LLM"), and a successful result is made of the first 3 candidates.
\<close>

theorem SuggestCommits_exactly_three:
  "(\<forall>result. fst (SuggestCommits L s provider model temperature w) = Inr result \<longrightarrow>
      length result = 3
      \<and> (\<forall>d \<in> set result. Validate d = None \<and> (\<exists>c. d = Normalize L (toDomain c))))
   \<and> (\<forall>input cands.
        llmCalls (snd (SuggestCommits L s provider model temperature w)) = llmCalls w @ [input]
        \<and> llm s (llmCalls w) input = Inr cands \<longrightarrow>
          (length cands < 3 \<longrightarrow>
             fst (SuggestCommits L s provider model temperature w)
               = Inl (InvalidSuggestionsFromLLM (Expected3Suggestions (length cands))))
          \<and> (\<forall>result. fst (SuggestCommits L s provider model temperature w) = Inr result \<longrightarrow>
                result = map (\<lambda>c. Normalize L (toDomain c)) (take 3 cands)))"
proof (intro conjI allI impI)
  fix result
  assume "fst (SuggestCommits L s provider model temperature w) = Inr result"
  then obtain cands where c: "validateAndNormalize L cands = Inr result"
    using SuggestCommits_Inr by blast
  then have r: "3 \<le> length cands" "result = map (\<lambda>p. Normalize L (toDomain p)) (take 3 cands)"
    "\<forall>d \<in> set result. Validate d = None"
    by (simp_all add: validateAndNormalize_Inr)
  from r(1,2) show "length result = 3" by simp
  from r(2,3) show "\<forall>d \<in> set result. Validate d = None \<and> (\<exists>c. d = Normalize L (toDomain c))"
    by auto
next
  fix input cands
  assume a: "llmCalls (snd (SuggestCommits L s provider model temperature w)) = llmCalls w @ [input]
        \<and> llm s (llmCalls w) input = Inr cands"
  assume "length cands < 3"
  then have "validateAndNormalize L cands = Inl (Expected3Suggestions (length cands))"
    by (simp add: validateAndNormalize_def)
  with a show "fst (SuggestCommits L s provider model temperature w)
               = Inl (InvalidSuggestionsFromLLM (Expected3Suggestions (length cands)))"
    using SuggestCommits_called [of L s provider model temperature w input cands] by simp
next
  fix input cands result
  assume a: "llmCalls (snd (SuggestCommits L s provider model temperature w)) = llmCalls w @ [input]
        \<and> llm s (llmCalls w) input = Inr cands"
  assume b: "fst (SuggestCommits L s provider model temperature w) = Inr result"
  from a b have "validateAndNormalize L cands = Inr result"
    using SuggestCommits_called [of L s provider model temperature w input cands]
    by (simp split: sum.splits)
  then show "result = map (\<lambda>c. Normalize L (toDomain c)) (take 3 cands)"
    by (simp add: validateAndNormalize_Inr)
qed

theorem SuggestCommits_exactly_three_witness:
  "fst (SuggestCommits exampleLib (NewApp (FakeLLM fourCandidates) (FakeGit ''+x'' True) True 8192 True)
          ''openai'' ''gpt-4o-mini'' 0.7 newWorld)
     = Inr (map (\<lambda>c. Normalize exampleLib (toDomain c)) (take 3 fourCandidates))
   \<and> length (map (\<lambda>c. Normalize exampleLib (toDomain c)) (take 3 fourCandidates)) = 3
   \<and> length (take 2 SampleLLMResponse) < 3
   \<and> fst (SuggestCommits exampleLib
            (NewApp (FakeLLM (take 2 SampleLLMResponse)) (FakeGit ''+x'' True) True 8192 True)
            ''openai'' ''gpt-4o-mini'' 0.7 newWorld)
       = Inl (InvalidSuggestionsFromLLM (Expected3Suggestions 2))"
proof -
  let ?s4 = "NewApp (FakeLLM fourCandidates) (FakeGit ''+x'' True) True 8192 True"
  let ?s2 = "NewApp (FakeLLM (take 2 SampleLLMResponse)) (FakeGit ''+x'' True) True 8192 True"
  let ?input = "\<lparr>StagedDiff = ''+x'', FileList = [], Model = ''gpt-4o-mini'', Temperature = 0.7\<rparr>"
  let ?r = "map (\<lambda>c. Normalize exampleLib (toDomain c)) (take 3 fourCandidates)"
  have ok: "fst (SuggestCommits exampleLib ?s4 ''openai'' ''gpt-4o-mini'' 0.7 newWorld) = Inr ?r"
    by code_simp
  have c2: "llmCalls (snd (SuggestCommits exampleLib ?s2 ''openai'' ''gpt-4o-mini'' 0.7 newWorld))
              = llmCalls newWorld @ [?input]"
    by code_simp
  have a2: "llm ?s2 (llmCalls newWorld) ?input = Inr (take 2 SampleLLMResponse)"
    by (simp add: NewApp_def FakeLLM_def)
  have l2: "length (take 2 SampleLLMResponse) = 2"
    by (simp add: SampleLLMResponse_def)
  note T4 = SuggestCommits_exactly_three [of exampleLib ?s4 "''openai''" "''gpt-4o-mini''" "0.7" newWorld]
  note T2 = SuggestCommits_exactly_three [of exampleLib ?s2 "''openai''" "''gpt-4o-mini''" "0.7" newWorld]
  from T4 [THEN conjunct1, THEN spec, THEN mp, OF ok] have len: "length ?r = 3"
    by (rule conjunct1)
  from c2 a2 have h2: "llmCalls (snd (SuggestCommits exampleLib ?s2 ''openai'' ''gpt-4o-mini'' 0.7 newWorld))
              = llmCalls newWorld @ [?input] \<and> llm ?s2 (llmCalls newWorld) ?input = Inr (take 2 SampleLLMResponse)"
    by (rule conjI)
  have lt: "length (take 2 SampleLLMResponse) < 3" by (simp add: l2)
  from T2 [THEN conjunct2, THEN spec, THEN spec, THEN mp, OF h2, THEN conjunct1, THEN mp, OF lt]
  have e2: "fst (SuggestCommits exampleLib ?s2 ''openai'' ''gpt-4o-mini'' 0.7 newWorld)
       = Inl (InvalidSuggestionsFromLLM (Expected3Suggestions (length (take 2 SampleLLMResponse))))" .
  show ?thesis
    apply (intro conjI)
       apply (rule ok)
      apply (rule len)
     apply (rule lt)
    apply (simp only: e2 l2)
    done
qed

text \<open>
  C8. \<open>Normalize\<close> replaces each of the four fields by its \<open>TrimSpace\<close>, the type
  lower-cased first, and then cuts a subject of more than 72 bytes to its first 72 bytes:
  the subject is at most 72 bytes long afterwards, and exactly 72 where the trimmed subject
  was longer. (The source counts with \<open>len\<close>: "characters" are bytes.) \<open>TrimSpace x\<close> is
  \<open>x\<close> without a sequence of white-space runes at each end, and neither starts nor ends with
  one; a type of ASCII bytes keeps no upper-case letter. Every suggestion that
  \<open>SuggestCommits\<close> returns has a subject of at most 72 bytes.
\<close>

theorem Normalize_trims_lowers_caps:
  "Type (Normalize L s) = TrimSpace (ToLower L (Type s))
   \<and> Subject (Normalize L s) =
       (if 72 < length (TrimSpace (Subject s)) then take 72 (TrimSpace (Subject s))
        else TrimSpace (Subject s))
   \<and> Body (Normalize L s) = TrimSpace (Body s)
   \<and> Footer (Normalize L s) = TrimSpace (Footer s)
   \<and> length (Subject (Normalize L s)) \<le> 72
   \<and> (72 < length (TrimSpace (Subject s)) \<longrightarrow> length (Subject (Normalize L s)) = 72)
   \<and> (\<forall>x. leadingSpace (TrimSpace x) = 0 \<and> trailingSpace (TrimSpace x) = 0
          \<and> (\<exists>l r. x = l @ TrimSpace x @ r \<and> white l \<and> white r))
   \<and> (isASCII (Type s) \<longrightarrow> (\<forall>c \<in> set (Type (Normalize L s)). \<not> rng CHR ''A'' CHR ''Z'' c))
   \<and> (\<forall>result. fst (SuggestCommits L sv provider model temperature w) = Inr result \<longrightarrow>
          (\<forall>d \<in> set result. length (Subject d) \<le> 72))"
proof (intro conjI allI impI ballI)
  show "length (Subject (Normalize L s)) \<le> 72" by (rule Normalize_subject_le)
next
  assume "72 < length (TrimSpace (Subject s))"
  then show "length (Subject (Normalize L s)) = 72" by (simp add: Normalize_fields)
next
  fix c
  assume a: "isASCII (Type s)" and c: "c \<in> set (Type (Normalize L s))"
  from a have "ToLower L (Type s) = map lowerASCII (Type s)" by (simp add: ToLower_def)
  with c have "c \<in> set (TrimSpace (map lowerASCII (Type s)))"
    by (simp add: Normalize_fields)
  then have "c \<in> set (map lowerASCII (Type s))"
    using TrimSpace_set [of "map lowerASCII (Type s)"] by blast
  then show "\<not> rng CHR ''A'' CHR ''Z'' c" by (auto simp: lowerASCII_not_upper)
next
  fix result d
  assume "fst (SuggestCommits L sv provider model temperature w) = Inr result"
  then obtain cands where "validateAndNormalize L cands = Inr result"
    using SuggestCommits_Inr by blast
  then have "result = map (\<lambda>p. Normalize L (toDomain p)) (take 3 cands)"
    by (simp add: validateAndNormalize_Inr)
  moreover assume "d \<in> set result"
  ultimately show "length (Subject d) \<le> 72" by (auto simp: Normalize_subject_le)
qed (simp_all add: Normalize_fields TrimSpace_no_leading TrimSpace_no_trailing TrimSpace_split)

theorem Normalize_trims_lowers_caps_witness:
  "72 < length (TrimSpace (Subject longSubject))
   \<and> isASCII (Type longSubject)
   \<and> Normalize exampleLib longSubject
       = \<lparr>Type = ''feat'', Subject = replicate 72 CHR ''a'', Body = ''some body'',
          Footer = ''BREAKING CHANGE: details''\<rparr>
   \<and> length (Subject (Normalize exampleLib longSubject)) = 72
   \<and> length (Subject (Normalize exampleLib (toDomain (fourCandidates ! 0)))) \<le> 72"
proof -
  let ?s4 = "NewApp (FakeLLM fourCandidates) (FakeGit ''+x'' True) True 8192 True"
  let ?r = "map (\<lambda>c. Normalize exampleLib (toDomain c)) (take 3 fourCandidates)"
  have ok: "fst (SuggestCommits exampleLib ?s4 ''openai'' ''gpt-4o-mini'' 0.7 newWorld) = Inr ?r"
    by code_simp
  have h1: "72 < length (TrimSpace (Subject longSubject))" by code_simp
  have h2: "isASCII (Type longSubject)" by code_simp
  have n: "Normalize exampleLib longSubject
       = \<lparr>Type = ''feat'', Subject = replicate 72 CHR ''a'', Body = ''some body'',
          Footer = ''BREAKING CHANGE: details''\<rparr>" by code_simp
  note T = Normalize_trims_lowers_caps [of exampleLib longSubject ?s4 "''openai''" "''gpt-4o-mini''" "0.7" newWorld]
  from T have c6: "72 < length (TrimSpace (Subject longSubject)) \<longrightarrow>
      length (Subject (Normalize exampleLib longSubject)) = 72" by blast
  from T have c9: "\<forall>result. fst (SuggestCommits exampleLib ?s4 ''openai'' ''gpt-4o-mini'' 0.7 newWorld) = Inr result \<longrightarrow>
          (\<forall>d \<in> set result. length (Subject d) \<le> 72)" by blast
  from c6 h1 have l: "length (Subject (Normalize exampleLib longSubject)) = 72" by (rule mp)
  from c9 [THEN spec, THEN mp, OF ok] have "\<forall>d \<in> set ?r. length (Subject d) \<le> 72" .
  moreover have "Normalize exampleLib (toDomain (fourCandidates ! 0)) \<in> set ?r"
    by (simp add: fourCandidates_def SampleLLMResponse_def numeral_3_eq_3)
  ultimately have a: "length (Subject (Normalize exampleLib (toDomain (fourCandidates ! 0)))) \<le> 72"
    by blast
  show ?thesis
    apply (intro conjI)
        apply (rule h1)
       apply (rule h2)
      apply (rule n)
     apply (rule l)
    apply (rule a)
    done
qed

lemma SuggestCommits_hit:
  assumes "gitIsInRepository (git s) = Inr True" and "gitStagedDiff (git s) = Inr diff"
    and "diff \<noteq> []" and "cacheLookup s w (hashDiff L diff provider model) = Some cached"
  shows "SuggestCommits L s provider model temperature w = (validateAndNormalize L cached, w)"
  using assms by (simp add: SuggestCommits_def Let_def)

lemma SuggestCommits_miss:
  assumes "gitIsInRepository (git s) = Inr True" and "gitStagedDiff (git s) = Inr diff"
    and "diff \<noteq> []" and "cacheLookup s w (hashDiff L diff provider model) = None"
    and "capDiff diff (diffCap s) = Inr cappedDiff"
  shows "SuggestCommits L s provider model temperature w =
     (let input = \<lparr>StagedDiff = redactor s cappedDiff, FileList = [], Model = model,
                    Temperature = temperature\<rparr>;
          w1 = w\<lparr>llmCalls := llmCalls w @ [input]\<rparr>
      in (case llm s (llmCalls w) input of
            Inl err \<Rightarrow> (Inl (LLMError err), w1)
          | Inr cands \<Rightarrow>
             (case validateAndNormalize L cands of
                Inl err \<Rightarrow> (Inl (InvalidSuggestionsFromLLM err), w1)
              | Inr result \<Rightarrow>
                 (Inr result,
                  if useCache s \<and> cache s
                  then w1\<lparr>cacheMap :=
                            InMemory_Set (cacheMap w1) (hashDiff L diff provider model) cands\<rparr>
                  else w1))))"
  using assms by (simp add: SuggestCommits_def Let_def)

text \<open>Whether the call handed an input to the provider shows in the world it returns.\<close>

lemma SuggestCommits_world:
  "snd (SuggestCommits L s provider model temperature w) = w
   \<or> (\<exists>input. llmCalls (snd (SuggestCommits L s provider model temperature w)) = llmCalls w @ [input]
        \<and> gitCommits (snd (SuggestCommits L s provider model temperature w)) = gitCommits w)"
  by (auto simp: SuggestCommits_def Let_def split: sum.splits if_splits option.splits)

lemma validateAndNormalize_first_failure:
  assumes "3 \<le> length cands" and "i < 3"
    and "Validate (Normalize L (toDomain (cands ! i))) \<noteq> None"
  shows "\<exists>j e. j \<le> i \<and> Validate (Normalize L (toDomain (cands ! j))) = Some e
           \<and> (\<forall>k<j. Validate (Normalize L (toDomain (cands ! k))) = None)
           \<and> validateAndNormalize L cands = Inl (SuggestionValidationFailed j e)"
proof -
  from assms(2) have "i = 0 \<or> i = 1 \<or> i = 2" by auto
  with assms(1,3) show ?thesis
    by (cases "Validate (Normalize L (toDomain (cands ! 0)))";
        cases "Validate (Normalize L (toDomain (cands ! 1)))";
        cases "Validate (Normalize L (toDomain (cands ! 2)))")
       (auto simp: validateAndNormalize_def replicate3 validateLoop3 less_Suc_eq numeral_2_eq_2)
qed

lemma SuggestCommits_called_world:
  assumes "llmCalls (snd (SuggestCommits L s provider model temperature w)) = llmCalls w @ [input]"
    and "llm s (llmCalls w) input = Inr cands"
    and "validateAndNormalize L cands = Inl err"
  shows "cacheMap (snd (SuggestCommits L s provider model temperature w)) = cacheMap w"
  using assms
  by (auto simp: SuggestCommits_def Let_def split: sum.splits if_splits option.splits)

lemma Validate_invalid_type:
  "\<not> isValidType (Type d) \<Longrightarrow> Validate d = Some (if Type d = [] then TypeIsRequired else InvalidType (Type d))"
  by (simp add: Validate_def)

text \<open>
  C6. If one of the first 3 candidates fails \<open>Validate\<close> after \<open>Normalize\<close>, whatever the
  other two are, \<open>validateAndNormalize\<close> returns "suggestion j validation failed" for the
  first such candidate \<open>j\<close> and no suggestion. A call of \<open>SuggestCommits\<close> that got these
  candidates from the provider fails with that error (wrapped as "invalid suggestions from
  LLM") and leaves the cache as it was; a call that read them from the cache fails with it
  too. A type outside \<open>ValidCommitTypes\<close> is such a failure.
\<close>

theorem SuggestCommits_all_or_nothing:
  "(\<forall>cands i. 3 \<le> length cands \<and> i < 3
        \<and> Validate (Normalize L (toDomain (cands ! i))) \<noteq> None \<longrightarrow>
      (\<exists>j e. j \<le> i \<and> Validate (Normalize L (toDomain (cands ! j))) = Some e
         \<and> validateAndNormalize L cands = Inl (SuggestionValidationFailed j e)
         \<and> (\<forall>input.
               llmCalls (snd (SuggestCommits L s provider model temperature w))
                 = llmCalls w @ [input]
               \<and> llm s (llmCalls w) input = Inr cands \<longrightarrow>
                 fst (SuggestCommits L s provider model temperature w)
                   = Inl (InvalidSuggestionsFromLLM (SuggestionValidationFailed j e))
                 \<and> cacheMap (snd (SuggestCommits L s provider model temperature w)) = cacheMap w)
         \<and> (\<forall>diff.
               gitIsInRepository (git s) = Inr True \<and> gitStagedDiff (git s) = Inr diff
               \<and> diff \<noteq> []
               \<and> cacheLookup s w (hashDiff L diff provider model) = Some cands \<longrightarrow>
                 SuggestCommits L s provider model temperature w
                   = (Inl (SuggestionValidationFailed j e), w))))
   \<and> (\<forall>c. \<not> isValidType (TrimSpace (ToLower L (cType c))) \<longrightarrow>
          Validate (Normalize L (toDomain c)) \<noteq> None)"
proof (intro conjI allI impI)
  fix cands i
  assume a: "3 \<le> length cands \<and> i < 3 \<and> Validate (Normalize L (toDomain (cands ! i))) \<noteq> None"
  then obtain j e where j: "j \<le> i" "Validate (Normalize L (toDomain (cands ! j))) = Some e"
    "validateAndNormalize L cands = Inl (SuggestionValidationFailed j e)"
    using validateAndNormalize_first_failure [of cands i L] by blast
  have p1: "\<forall>input.
               llmCalls (snd (SuggestCommits L s provider model temperature w))
                 = llmCalls w @ [input]
               \<and> llm s (llmCalls w) input = Inr cands \<longrightarrow>
                 fst (SuggestCommits L s provider model temperature w)
                   = Inl (InvalidSuggestionsFromLLM (SuggestionValidationFailed j e))
                 \<and> cacheMap (snd (SuggestCommits L s provider model temperature w)) = cacheMap w"
    using SuggestCommits_called [of L s provider model temperature w _ cands]
      SuggestCommits_called_world [of L s provider model temperature w _ cands] j(3)
    by simp
  have p2: "\<forall>diff.
               gitIsInRepository (git s) = Inr True \<and> gitStagedDiff (git s) = Inr diff
               \<and> diff \<noteq> []
               \<and> cacheLookup s w (hashDiff L diff provider model) = Some cands \<longrightarrow>
                 SuggestCommits L s provider model temperature w
                   = (Inl (SuggestionValidationFailed j e), w)"
    using SuggestCommits_hit [of s _ w L provider model cands temperature] j(3) by simp
  from j p1 p2 show "\<exists>j e. j \<le> i \<and> Validate (Normalize L (toDomain (cands ! j))) = Some e
         \<and> validateAndNormalize L cands = Inl (SuggestionValidationFailed j e)
         \<and> (\<forall>input.
               llmCalls (snd (SuggestCommits L s provider model temperature w))
                 = llmCalls w @ [input]
               \<and> llm s (llmCalls w) input = Inr cands \<longrightarrow>
                 fst (SuggestCommits L s provider model temperature w)
                   = Inl (InvalidSuggestionsFromLLM (SuggestionValidationFailed j e))
                 \<and> cacheMap (snd (SuggestCommits L s provider model temperature w)) = cacheMap w)
         \<and> (\<forall>diff.
               gitIsInRepository (git s) = Inr True \<and> gitStagedDiff (git s) = Inr diff
               \<and> diff \<noteq> []
               \<and> cacheLookup s w (hashDiff L diff provider model) = Some cands \<longrightarrow>
                 SuggestCommits L s provider model temperature w
                   = (Inl (SuggestionValidationFailed j e), w))"
    by blast
next
  fix c :: CommitSuggestion
  assume "\<not> isValidType (TrimSpace (ToLower L (cType c)))"
  then have "\<not> isValidType (Type (Normalize L (toDomain c)))"
    by (simp add: Normalize_fields toDomain_def)
  then show "Validate (Normalize L (toDomain c)) \<noteq> None"
    by (simp add: Validate_invalid_type)
qed

theorem SuggestCommits_all_or_nothing_witness:
  "3 \<le> length oneInvalid
   \<and> Validate (Normalize exampleLib (toDomain (oneInvalid ! 0))) = None
   \<and> Validate (Normalize exampleLib (toDomain (oneInvalid ! 1))) = Some (InvalidType ''invalid_type'')
   \<and> Validate (Normalize exampleLib (toDomain (oneInvalid ! 2))) = None
   \<and> fst (exampleCall (exampleService oneInvalid ''+x'' 8192) newWorld)
       = Inl (InvalidSuggestionsFromLLM (SuggestionValidationFailed 1 (InvalidType ''invalid_type'')))
   \<and> cacheMap (snd (exampleCall (exampleService oneInvalid ''+x'' 8192) newWorld))
       = cacheMap newWorld"
proof -
  let ?s = "exampleService oneInvalid ''+x'' 8192"
  have h1: "3 \<le> length oneInvalid" by (simp add: oneInvalid_def)
  have v0: "Validate (Normalize exampleLib (toDomain (oneInvalid ! 0))) = None" by code_simp
  have v1: "Validate (Normalize exampleLib (toDomain (oneInvalid ! 1)))
              = Some (InvalidType ''invalid_type'')" by code_simp
  have v2: "Validate (Normalize exampleLib (toDomain (oneInvalid ! 2))) = None" by code_simp
  have r: "fst (exampleCall ?s newWorld)
       = Inl (InvalidSuggestionsFromLLM (SuggestionValidationFailed 1 (InvalidType ''invalid_type'')))"
    by code_simp
  have c: "llmCalls (snd (SuggestCommits exampleLib ?s ''openai'' ''gpt-4o-mini'' 0.7 newWorld))
             = llmCalls newWorld @ [exampleInput ''+x'']"
    by code_simp
  have a: "llm ?s (llmCalls newWorld) (exampleInput ''+x'') = Inr oneInvalid"
    by (simp add: exampleService_def NewApp_def FakeLLM_def)
  have h: "3 \<le> length oneInvalid \<and> (1::nat) < 3
            \<and> Validate (Normalize exampleLib (toDomain (oneInvalid ! 1))) \<noteq> None"
    using h1 v1 by simp
  from SuggestCommits_all_or_nothing
         [of exampleLib ?s "''openai''" "''gpt-4o-mini''" "0.7" newWorld,
          THEN conjunct1, THEN spec, THEN spec, THEN mp, OF h]
  obtain j e where
    "\<forall>input.
        llmCalls (snd (SuggestCommits exampleLib ?s ''openai'' ''gpt-4o-mini'' 0.7 newWorld))
          = llmCalls newWorld @ [input]
        \<and> llm ?s (llmCalls newWorld) input = Inr oneInvalid \<longrightarrow>
          fst (SuggestCommits exampleLib ?s ''openai'' ''gpt-4o-mini'' 0.7 newWorld)
            = Inl (InvalidSuggestionsFromLLM (SuggestionValidationFailed j e))
          \<and> cacheMap (snd (SuggestCommits exampleLib ?s ''openai'' ''gpt-4o-mini'' 0.7 newWorld))
              = cacheMap newWorld"
    by blast
  with c a have "cacheMap (snd (SuggestCommits exampleLib ?s ''openai'' ''gpt-4o-mini'' 0.7 newWorld))
              = cacheMap newWorld" by blast
  then have m: "cacheMap (snd (exampleCall ?s newWorld)) = cacheMap newWorld"
    by (simp add: exampleCall_def)
  show ?thesis
    apply (intro conjI)
         apply (rule h1)
        apply (rule v0)
       apply (rule v1)
      apply (rule v2)
     apply (rule r)
    apply (rule m)
    done
qed

text \<open>
  C3. With the cache in use, let a first call succeed after handing an input to the
  provider. Then it handed exactly one input, and it stored the candidates as the
  provider returned them under the fingerprint of the raw diff. A second call with the same
  staged diff, provider and model (whatever its cap, temperature and provider client)
  returns \<open>validateAndNormalize\<close> of the stored candidates, which is the result of the
  first call, and leaves the world as it is: the provider is not called again.
\<close>

theorem SuggestCommits_second_call_hits_cache:
  assumes "useCache s" and "cache s"
    and "SuggestCommits L s provider model temperature w = (Inr result, w1)"
    and "llmCalls w1 \<noteq> llmCalls w"
    and "useCache s2" and "cache s2"
    and "gitIsInRepository (git s2) = Inr True"
    and "gitStagedDiff (git s2) = gitStagedDiff (git s)"
  shows "\<exists>diff input cands.
           gitStagedDiff (git s) = Inr diff
           \<and> llmCalls w1 = llmCalls w @ [input]
           \<and> llm s (llmCalls w) input = Inr cands
           \<and> cacheMap w1 = (cacheMap w)(hashDiff L diff provider model \<mapsto> cands)
           \<and> SuggestCommits L s2 provider model temperature2 w1
               = (validateAndNormalize L cands, w1)
           \<and> validateAndNormalize L cands = Inr result"
proof -
  from assms(3,4) obtain diff where d: "gitIsInRepository (git s) = Inr True"
    "gitStagedDiff (git s) = Inr diff" "diff \<noteq> []"
    "cacheLookup s w (hashDiff L diff provider model) = None"
    by (auto simp: SuggestCommits_def Let_def split: sum.splits if_splits option.splits)
  from assms(3) d obtain capped where c: "capDiff diff (diffCap s) = Inr capped"
    by (auto simp: SuggestCommits_def Let_def split: sum.splits)
  let ?input = "\<lparr>StagedDiff = redactor s capped, FileList = [], Model = model,
                    Temperature = temperature\<rparr>"
  let ?key = "hashDiff L diff provider model"
  from assms(3) obtain cands where l: "llm s (llmCalls w) ?input = Inr cands"
    "validateAndNormalize L cands = Inr result"
    "w1 = w\<lparr>llmCalls := llmCalls w @ [?input],
             cacheMap := InMemory_Set (cacheMap w) ?key cands\<rparr>"
    unfolding SuggestCommits_miss [OF d c] using assms(1,2)
    by (auto simp: Let_def split: sum.splits)
  have look: "cacheLookup s2 w1 ?key = Some cands"
    using assms(5,6) l(3) by (simp add: cacheLookup_def InMemory_Get_def InMemory_Set_def)
  have "SuggestCommits L s2 provider model temperature2 w1 = (validateAndNormalize L cands, w1)"
    using SuggestCommits_hit [OF assms(7) _ d(3) look] assms(8) d(2) by simp
  moreover have "cacheMap w1 = (cacheMap w)(?key \<mapsto> cands)"
    using l(3) by (simp add: InMemory_Set_def)
  moreover have "llmCalls w1 = llmCalls w @ [?input]" using l(3) by simp
  ultimately show ?thesis using d(2) l(1,2) by blast
qed

lemma hexDigit_inj:
  "i < 16 \<Longrightarrow> j < 16 \<Longrightarrow> ''0123456789abcdef'' ! i = ''0123456789abcdef'' ! j \<Longrightarrow> i = j"
proof -
  have "distinct ''0123456789abcdef''" by simp
  moreover assume "i < 16" "j < 16" "''0123456789abcdef'' ! i = ''0123456789abcdef'' ! j"
  ultimately show "i = j" by (simp add: nth_eq_iff_index_eq)
qed

lemma byte_lt: "byte c < 256"
  by (simp add: byte_def)

lemma hexByte_inj: "hexByte c = hexByte d \<Longrightarrow> c = d"
proof -
  assume a: "hexByte c = hexByte d"
  have c: "byte c div 16 < 16" "byte c mod 16 < 16" "byte d div 16 < 16" "byte d mod 16 < 16"
    using byte_lt [of c] byte_lt [of d] by simp_all
  from a have "byte c div 16 = byte d div 16" "byte c mod 16 = byte d mod 16"
    using hexDigit_inj c by (simp_all add: hexByte_def)
  then have "byte c = byte d" by (metis div_mult_mod_eq)
  then show "c = d" by (simp add: byte_def)
qed

lemma hex_inj: "hex a = hex b \<Longrightarrow> a = b"
proof (induction a arbitrary: b)
  case Nil
  then show ?case by (cases b) (simp_all add: hex_def hexByte_def)
next
  case (Cons x a)
  then obtain y b' where b: "b = y # b'" by (cases b) (auto simp: hex_def hexByte_def)
  with Cons.prems have "hexByte x @ hex a = hexByte y @ hex b'" by (simp add: hex_def)
  moreover have "length (hexByte x) = length (hexByte y)" by (simp add: hexByte_def)
  ultimately have "hexByte x = hexByte y" "hex a = hex b'" by simp_all
  with Cons.IH b show ?case by (simp add: hexByte_inj)
qed

theorem SuggestCommits_second_call_hits_cache_witness:
  "fst (exampleCall (exampleService SampleLLMResponse ''+x'' 8192) newWorld)
     = Inr (map toDomain SampleLLMResponse)
   \<and> llmCalls (snd (exampleCall (exampleService SampleLLMResponse ''+x'' 8192) newWorld))
       = [exampleInput ''+x'']
   \<and> exampleCall (exampleService SampleLLMResponse ''+x'' 100)
        (snd (exampleCall (exampleService SampleLLMResponse ''+x'' 8192) newWorld))
       = (Inr (map toDomain SampleLLMResponse),
          snd (exampleCall (exampleService SampleLLMResponse ''+x'' 8192) newWorld))"
proof -
  let ?s = "exampleService SampleLLMResponse ''+x'' 8192"
  let ?s2 = "exampleService SampleLLMResponse ''+x'' 100"
  let ?w1 = "snd (exampleCall ?s newWorld)"
  let ?r = "map toDomain SampleLLMResponse"
  have f: "fst (exampleCall ?s newWorld) = Inr ?r" by code_simp
  have c: "llmCalls ?w1 = [exampleInput ''+x'']" by code_simp
  have first: "SuggestCommits exampleLib ?s ''openai'' ''gpt-4o-mini'' 0.7 newWorld = (Inr ?r, ?w1)"
    using f by (metis exampleCall_def prod.collapse)
  have called: "llmCalls ?w1 \<noteq> llmCalls newWorld"
    using c by (simp add: newWorld_def)
  have u: "useCache ?s" "cache ?s" "useCache ?s2" "cache ?s2"
    "gitIsInRepository (git ?s2) = Inr True" "gitStagedDiff (git ?s2) = gitStagedDiff (git ?s)"
    by (simp_all add: exampleService_def NewApp_def FakeGit_def)
  from SuggestCommits_second_call_hits_cache
         [OF u(1) u(2) first called u(3) u(4) u(5) u(6), of "0.7"]
  have "SuggestCommits exampleLib ?s2 ''openai'' ''gpt-4o-mini'' 0.7 ?w1 = (Inr ?r, ?w1)"
    by auto
  then have second: "exampleCall ?s2 ?w1 = (Inr ?r, ?w1)" by (simp add: exampleCall_def)
  show ?thesis
    apply (intro conjI)
      apply (rule f)
     apply (rule c)
    apply (rule second)
    done
qed

text \<open>
  C5. The fingerprint is \<open>hashDiff\<close> of the raw diff, the provider and the model: it is
  the key that \<open>SuggestCommits\<close> looks up and the only key it may write, whatever the cap
  of the service. Two diffs that differ, also when capping makes them equal, have different
  fingerprints as long as the hash has no collision.
\<close>

theorem hashDiff_of_raw_diff:
  "(capDiff d1 cap = capDiff d2 cap \<and> d1 \<noteq> d2 \<and> inj (sha256 L) \<longrightarrow>
      hashDiff L d1 provider model \<noteq> hashDiff L d2 provider model)
   \<and> (\<forall>diff. gitIsInRepository (git s) = Inr True \<and> gitStagedDiff (git s) = Inr diff
          \<and> diff \<noteq> [] \<longrightarrow>
        (\<forall>cached. cacheLookup s w (hashDiff L diff provider model) = Some cached \<longrightarrow>
           SuggestCommits L s provider model temperature w = (validateAndNormalize L cached, w))
        \<and> (cacheLookup s w (hashDiff L diff provider model) = None \<longrightarrow>
             cacheMap (snd (SuggestCommits L s provider model temperature w)) = cacheMap w
             \<or> (\<exists>cands. cacheMap (snd (SuggestCommits L s provider model temperature w))
                          = (cacheMap w)(hashDiff L diff provider model \<mapsto> cands))))"
proof (intro conjI allI impI)
  assume a: "capDiff d1 cap = capDiff d2 cap \<and> d1 \<noteq> d2 \<and> inj (sha256 L)"
  then have "d1 @ ''\<newline>provider='' @ provider @ ''\<newline>model='' @ model
               \<noteq> d2 @ ''\<newline>provider='' @ provider @ ''\<newline>model='' @ model"
    by simp
  with a have "sha256 L (d1 @ ''\<newline>provider='' @ provider @ ''\<newline>model='' @ model)
               \<noteq> sha256 L (d2 @ ''\<newline>provider='' @ provider @ ''\<newline>model='' @ model)"
    by (meson injD)
  then show "hashDiff L d1 provider model \<noteq> hashDiff L d2 provider model"
    using hex_inj by (auto simp: hashDiff_def Let_def)
next
  fix diff cached
  assume "gitIsInRepository (git s) = Inr True \<and> gitStagedDiff (git s) = Inr diff \<and> diff \<noteq> []"
    and "cacheLookup s w (hashDiff L diff provider model) = Some cached"
  then show "SuggestCommits L s provider model temperature w = (validateAndNormalize L cached, w)"
    by (simp add: SuggestCommits_hit)
next
  fix diff
  assume "gitIsInRepository (git s) = Inr True \<and> gitStagedDiff (git s) = Inr diff \<and> diff \<noteq> []"
    and "cacheLookup s w (hashDiff L diff provider model) = None"
  then show "cacheMap (snd (SuggestCommits L s provider model temperature w)) = cacheMap w
             \<or> (\<exists>cands. cacheMap (snd (SuggestCommits L s provider model temperature w))
                          = (cacheMap w)(hashDiff L diff provider model \<mapsto> cands))"
    by (auto simp: SuggestCommits_def Let_def InMemory_Set_def split: sum.splits)
qed

theorem hashDiff_of_raw_diff_witness:
  "capDiff ''abcX'' 3 = capDiff ''abcY'' 3
   \<and> ''abcX'' \<noteq> ''abcY''
   \<and> inj (sha256 exampleLib)
   \<and> hashDiff exampleLib ''abcX'' ''openai'' ''gpt-4o-mini''
       \<noteq> hashDiff exampleLib ''abcY'' ''openai'' ''gpt-4o-mini''
   \<and> gitIsInRepository (git (exampleService SampleLLMResponse ''abcX'' 3)) = Inr True
   \<and> gitStagedDiff (git (exampleService SampleLLMResponse ''abcX'' 3)) = Inr ''abcX''
   \<and> cacheLookup (exampleService SampleLLMResponse ''abcX'' 3) newWorld
        (hashDiff exampleLib ''abcX'' ''openai'' ''gpt-4o-mini'') = None
   \<and> cacheMap (snd (exampleCall (exampleService SampleLLMResponse ''abcX'' 3) newWorld))
        (hashDiff exampleLib ''abcX'' ''openai'' ''gpt-4o-mini'') = Some SampleLLMResponse
   \<and> cacheMap (snd (exampleCall (exampleService SampleLLMResponse ''abcX'' 3) newWorld))
        (hashDiff exampleLib ''abcY'' ''openai'' ''gpt-4o-mini'') = None"
proof -
  let ?s = "exampleService SampleLLMResponse ''abcX'' 3"
  have h1: "capDiff ''abcX'' 3 = capDiff ''abcY'' 3" by (simp add: capDiff_def)
  have h2: "''abcX'' \<noteq> ''abcY''" by simp
  have h3: "inj (sha256 exampleLib)" by (simp add: exampleLib_def inj_def)
  from hashDiff_of_raw_diff [of "''abcX''" 3 "''abcY''" exampleLib "''openai''" "''gpt-4o-mini''",
         THEN conjunct1] h1 h2 h3
  have n: "hashDiff exampleLib ''abcX'' ''openai'' ''gpt-4o-mini''
       \<noteq> hashDiff exampleLib ''abcY'' ''openai'' ''gpt-4o-mini''"
    by blast
  have g: "gitIsInRepository (git ?s) = Inr True" "gitStagedDiff (git ?s) = Inr ''abcX''"
    by (simp_all add: exampleService_def NewApp_def FakeGit_def)
  have l: "cacheLookup ?s newWorld (hashDiff exampleLib ''abcX'' ''openai'' ''gpt-4o-mini'') = None"
    by (simp add: cacheLookup_def newWorld_def NewInMemory_def InMemory_Get_def)
  have k1: "cacheMap (snd (exampleCall ?s newWorld))
        (hashDiff exampleLib ''abcX'' ''openai'' ''gpt-4o-mini'') = Some SampleLLMResponse"
    by code_simp
  have k2: "cacheMap (snd (exampleCall ?s newWorld))
        (hashDiff exampleLib ''abcY'' ''openai'' ''gpt-4o-mini'') = None"
    by code_simp
  show ?thesis
    apply (intro conjI)
            apply (rule h1)
           apply (rule h2)
          apply (rule h3)
         apply (rule n)
        apply (rule g(1))
       apply (rule g(2))
      apply (rule l)
     apply (rule k1)
    apply (rule k2)
    done
qed

text \<open>
  C7. With the git executor as the port, an error of the command that checks the
  repository (any error, also one that is no answer about the repository) makes
  \<open>IsInRepository\<close> return \<open>false\<close> with no error, and \<open>SuggestCommits\<close> reports
  "not in a git repository".
\<close>

theorem tool_error_reported_as_not_in_repository:
  "SuggestCommits L (s\<lparr>git := (git s)\<lparr>gitIsInRepository := Executor_IsInRepository (CmdError err)\<rparr>\<rparr>)
     provider model temperature w
   = (Inl NotInAGitRepository, w)"
  by (simp add: SuggestCommits_def Executor_IsInRepository_def)

lemma SuggestCommits_input:
  assumes "llmCalls (snd (SuggestCommits L s provider model temperature w)) = llmCalls w @ [input]"
  shows "\<exists>diff capped. gitStagedDiff (git s) = Inr diff \<and> diff \<noteq> []
           \<and> capDiff diff (diffCap s) = Inr capped
           \<and> input = \<lparr>StagedDiff = redactor s capped, FileList = [], Model = model,
                       Temperature = temperature\<rparr>"
  using assms
  by (auto simp: SuggestCommits_def Let_def split: sum.splits if_splits option.splits)

lemma capDiff_take: "0 \<le> cap \<Longrightarrow> capDiff diff cap = Inr (take (nat cap) diff)"
  by (auto simp: capDiff_def)

text \<open>
  C2 (as amended). A call of \<open>SuggestCommits\<close> on the service of \<open>NewApp\<close> that hands
  an input to the provider hands it \<open>Redact\<close> of the capped diff. A string of the capped
  diff that matches one of the redactor's patterns, and does not itself contain the
  placeholder \<open>[REDACTED]\<close>, does not occur in that text.
\<close>

theorem secret_not_handed_to_provider:
  assumes "llmCalls (snd (SuggestCommits L (NewApp llm0 git0 cache0 cap useCache0)
                            provider model temperature w)) = llmCalls w @ [input]"
    and "gitStagedDiff git0 = Inr diff"
    and "capDiff diff cap = Inr capped"
    and "sublist secret capped"
    and "p \<in> set NewRedactor"
    and "mat p secret"
    and "\<not> sublist placeholder secret"
  shows "StagedDiff input = Redact NewRedactor capped \<and> \<not> sublist secret (StagedDiff input)"
proof -
  from SuggestCommits_input [OF assms(1)] assms(2,3)
  have "StagedDiff input = Redact NewRedactor capped" by (auto simp: NewApp_def)
  moreover have "\<not> sublist secret (Redact NewRedactor capped)"
    using assms(5,6,7) by (rule Redact_removes_secret)
  ultimately show ?thesis by simp
qed

theorem secret_not_handed_to_provider_witness:
  "llmCalls (snd (exampleCall (exampleService SampleLLMResponse secretDiff 8192) newWorld))
     = llmCalls newWorld @ [exampleInput ''+key = [REDACTED]'']
   \<and> capDiff secretDiff 8192 = Inr secretDiff
   \<and> sublist ''sk-abcdefghijklmnopqrstuvwx'' secretDiff
   \<and> patOpenAI \<in> set NewRedactor
   \<and> mat patOpenAI ''sk-abcdefghijklmnopqrstuvwx''
   \<and> \<not> sublist placeholder ''sk-abcdefghijklmnopqrstuvwx''
   \<and> \<not> sublist ''sk-abcdefghijklmnopqrstuvwx'' (StagedDiff (exampleInput ''+key = [REDACTED]''))"
proof -
  let ?s = "exampleService SampleLLMResponse secretDiff 8192"
  let ?w = "''sk-abcdefghijklmnopqrstuvwx''"
  have c: "llmCalls (snd (exampleCall ?s newWorld))
     = llmCalls newWorld @ [exampleInput ''+key = [REDACTED]'']" by code_simp
  then have c': "llmCalls (snd (SuggestCommits exampleLib
        (NewApp (FakeLLM SampleLLMResponse) (FakeGit secretDiff True) True 8192 True)
        ''openai'' ''gpt-4o-mini'' 0.7 newWorld))
     = llmCalls newWorld @ [exampleInput ''+key = [REDACTED]'']"
    by (simp add: exampleCall_def exampleService_def)
  have g: "gitStagedDiff (FakeGit secretDiff True) = Inr secretDiff" by (simp add: FakeGit_def)
  have k: "capDiff secretDiff 8192 = Inr secretDiff" by (simp add: capDiff_def secretDiff_def)
  have s: "sublist ?w secretDiff" by code_simp
  have p: "patOpenAI \<in> set NewRedactor" by (simp add: NewRedactor_def)
  have "length ?w \<in> set (ms patOpenAI ?w)" by code_simp
  then have m: "mat patOpenAI ?w" by (rule mat_eval)
  have n: "\<not> sublist placeholder ?w" by code_simp
  from secret_not_handed_to_provider [OF c' g k s p m n]
  have r: "\<not> sublist ?w (StagedDiff (exampleInput ''+key = [REDACTED]''))" by (rule conjunct2)
  show ?thesis
    apply (intro conjI)
          apply (rule c)
         apply (rule k)
        apply (rule s)
       apply (rule p)
      apply (rule m)
     apply (rule n)
    apply (rule r)
    done
qed

text \<open>
  C2 as stated fails for a secret that contains the placeholder. The diff
  \<open>"api_key": ""api_key": "[REDACTED]""\<close> contains \<open>"api_key": "[REDACTED]"\<close>, which
  matches the pattern for JSON keys. The pattern matches nowhere before that occurrence
  (after the first \<open>"api_key": "\<close> comes a quote, where \<open>[^"]+\<close> needs another byte);
  the occurrence is replaced, and the text handed to the provider is
  \<open>"api_key": "[REDACTED]"\<close> again.
\<close>

theorem placeholder_secret_handed_to_provider:
  "sublist (jsonKey placeholder) (jsonKey (jsonKey placeholder))
   \<and> patJSONKey \<in> set NewRedactor
   \<and> mat patJSONKey (jsonKey placeholder)
   \<and> llmCalls (snd (exampleCall (exampleService SampleLLMResponse (jsonKey (jsonKey placeholder)) 8192)
                      newWorld))
       = [exampleInput (jsonKey placeholder)]
   \<and> sublist (jsonKey placeholder) (StagedDiff (exampleInput (jsonKey placeholder)))"
proof -
  have a: "sublist (jsonKey placeholder) (jsonKey (jsonKey placeholder))" by code_simp
  have b: "patJSONKey \<in> set NewRedactor" by (simp add: NewRedactor_def)
  have "length (jsonKey placeholder) \<in> set (ms patJSONKey (jsonKey placeholder))" by code_simp
  then have c: "mat patJSONKey (jsonKey placeholder)" by (rule mat_eval)
  have d: "llmCalls (snd (exampleCall (exampleService SampleLLMResponse (jsonKey (jsonKey placeholder)) 8192)
                      newWorld))
       = [exampleInput (jsonKey placeholder)]" by code_simp
  have e: "sublist (jsonKey placeholder) (StagedDiff (exampleInput (jsonKey placeholder)))"
    by (simp add: exampleInput_def)
  show ?thesis
    apply (intro conjI)
        apply (rule a)
       apply (rule b)
      apply (rule c)
     apply (rule d)
    apply (rule e)
    done
qed

text \<open>
  C4 (as amended). For a cap that is not negative, a call of \<open>SuggestCommits\<close> that
  hands an input to the provider hands it the redactor's result on the first \<open>cap\<close> bytes
  of the diff (the whole diff if it is shorter). That capped text never exceeds the cap.
  With the redactor of \<open>NewRedactor\<close> the text handed over is at most
  \<open>cap + 3 * (cap div 7)\<close> bytes long, and it is the capped text itself, within the cap,
  where no pattern matches. If the provider answers with candidates that pass
  \<open>validateAndNormalize\<close>, the call succeeds with them, whatever the size of the diff.
\<close>

theorem provider_text_bound:
  assumes "0 \<le> diffCap s"
    and "llmCalls (snd (SuggestCommits L s provider model temperature w)) = llmCalls w @ [input]"
  shows "\<exists>diff.
           gitStagedDiff (git s) = Inr diff
           \<and> StagedDiff input = redactor s (take (nat (diffCap s)) diff)
           \<and> int (length (take (nat (diffCap s)) diff)) \<le> diffCap s
           \<and> (redactor s = Redact NewRedactor \<longrightarrow>
                int (length (StagedDiff input)) \<le> diffCap s + 3 * (diffCap s div 7))
           \<and> (redactor s = Redact NewRedactor
                \<and> \<not> Contains NewRedactor (take (nat (diffCap s)) diff) \<longrightarrow>
                StagedDiff input = take (nat (diffCap s)) diff
                \<and> int (length (StagedDiff input)) \<le> diffCap s)
           \<and> (\<forall>cands result.
                 llm s (llmCalls w) input = Inr cands
                 \<and> validateAndNormalize L cands = Inr result \<longrightarrow>
                 fst (SuggestCommits L s provider model temperature w) = Inr result)"
proof -
  from SuggestCommits_input [OF assms(2)] obtain diff capped where
    d: "gitStagedDiff (git s) = Inr diff" "capDiff diff (diffCap s) = Inr capped"
    "input = \<lparr>StagedDiff = redactor s capped, FileList = [], Model = model,
               Temperature = temperature\<rparr>"
    by blast
  let ?t = "take (nat (diffCap s)) diff"
  from d(2) assms(1) have cap: "capped = ?t" by (simp add: capDiff_take)
  have i: "StagedDiff input = redactor s ?t" using d(3) cap by simp
  have l: "int (length ?t) \<le> diffCap s" using assms(1) by simp
  have b: "int (length (StagedDiff input)) \<le> diffCap s + 3 * (diffCap s div 7)"
    if "redactor s = Redact NewRedactor"
  proof -
    have "length (StagedDiff input) \<le> length ?t + 3 * (length ?t div 7)"
      using i that Redact_length [of ?t] by simp
    then have "int (length (StagedDiff input)) \<le> int (length ?t) + 3 * (int (length ?t) div 7)"
      by (metis (mono_tags, opaque_lifting) of_nat_add of_nat_div of_nat_le_iff of_nat_mult
          of_nat_numeral)
    moreover have "int (length ?t) div 7 \<le> diffCap s div 7" using l by (simp add: zdiv_mono1)
    ultimately show ?thesis using l by linarith
  qed
  have n: "StagedDiff input = ?t \<and> int (length (StagedDiff input)) \<le> diffCap s"
    if "redactor s = Redact NewRedactor \<and> \<not> Contains NewRedactor ?t"
    using that i l by (simp add: Redact_nothing)
  have ok: "fst (SuggestCommits L s provider model temperature w) = Inr result"
    if "llm s (llmCalls w) input = Inr cands \<and> validateAndNormalize L cands = Inr result"
    for cands result
    using SuggestCommits_called [OF assms(2), of cands] that by simp
  from d(1) i l b n ok show ?thesis by blast
qed

theorem provider_text_bound_witness:
  "(0::int) \<le> diffCap (exampleService SampleLLMResponse largeDiff 100)
   \<and> int (length largeDiff) > 100
   \<and> llmCalls (snd (exampleCall (exampleService SampleLLMResponse largeDiff 100) newWorld))
       = llmCalls newWorld @ [exampleInput (take 100 largeDiff)]
   \<and> \<not> Contains NewRedactor (take 100 largeDiff)
   \<and> int (length (StagedDiff (exampleInput (take 100 largeDiff)))) \<le> 100
   \<and> fst (exampleCall (exampleService SampleLLMResponse largeDiff 100) newWorld)
       = Inr (map toDomain SampleLLMResponse)"
proof -
  let ?s = "exampleService SampleLLMResponse largeDiff 100"
  let ?input = "exampleInput (take 100 largeDiff)"
  have h1: "(0::int) \<le> diffCap ?s" by (simp add: exampleService_def NewApp_def)
  have h1': "diffCap ?s = 100" by (simp add: exampleService_def NewApp_def)
  have big: "int (length largeDiff) > 100" by code_simp
  have c: "llmCalls (snd (exampleCall ?s newWorld)) = llmCalls newWorld @ [?input]"
    by code_simp
  then have c': "llmCalls (snd (SuggestCommits exampleLib ?s ''openai'' ''gpt-4o-mini'' 0.7 newWorld))
                   = llmCalls newWorld @ [?input]"
    by (simp add: exampleCall_def)
  have nc: "\<not> Contains NewRedactor (take 100 largeDiff)" by code_simp
  have r: "redactor ?s = Redact NewRedactor" by (simp add: exampleService_def NewApp_def)
  have a: "llm ?s (llmCalls newWorld) ?input = Inr SampleLLMResponse"
    by (simp add: exampleService_def NewApp_def FakeLLM_def)
  have v: "validateAndNormalize exampleLib SampleLLMResponse = Inr (map toDomain SampleLLMResponse)"
    by code_simp
  from provider_text_bound [OF h1 c'] obtain diff where
    d: "redactor ?s = Redact NewRedactor \<longrightarrow>
          int (length (StagedDiff ?input)) \<le> diffCap ?s + 3 * (diffCap ?s div 7)"
       "\<forall>cands result.
          llm ?s (llmCalls newWorld) ?input = Inr cands
          \<and> validateAndNormalize exampleLib cands = Inr result \<longrightarrow>
          fst (SuggestCommits exampleLib ?s ''openai'' ''gpt-4o-mini'' 0.7 newWorld) = Inr result"
    by blast
  from d(2) a v have f: "fst (exampleCall ?s newWorld) = Inr (map toDomain SampleLLMResponse)"
    by (simp add: exampleCall_def)
  have le: "int (length (StagedDiff ?input)) \<le> 100" by (simp add: exampleInput_def)
  show ?thesis
    apply (intro conjI)
         apply (rule h1)
        apply (rule big)
       apply (rule c)
      apply (rule nc)
     apply (rule le)
    apply (rule f)
    done
qed

text \<open>
  C4 as stated fails: with the cap 7 and the staged diff \<open>pwd:"x"\<close>, of 7 bytes, the
  provider is handed \<open>[REDACTED]\<close>, of 10 bytes.
\<close>

theorem provider_text_exceeds_cap:
  "llmCalls (snd (exampleCall (exampleService SampleLLMResponse pwdDiff 7) newWorld))
     = [exampleInput ''[REDACTED]'']
   \<and> int (length pwdDiff) \<le> 7
   \<and> \<not> int (length (StagedDiff (exampleInput ''[REDACTED]''))) \<le> 7"
proof -
  have a: "llmCalls (snd (exampleCall (exampleService SampleLLMResponse pwdDiff 7) newWorld))
     = [exampleInput ''[REDACTED]'']" by code_simp
  have b: "int (length pwdDiff) \<le> 7" by (simp add: pwdDiff_def)
  have c: "\<not> int (length (StagedDiff (exampleInput ''[REDACTED]''))) \<le> 7"
    by (simp add: exampleInput_def)
  show ?thesis
    apply (intro conjI)
      apply (rule a)
     apply (rule b)
    apply (rule c)
    done
qed

text \<open>
  C9. \<open>Commit\<close> fails with "commit message cannot be empty" exactly when the message is
  the empty string, and then the git port's \<open>Commit\<close> is not called; for every other
  message, white space included, the port is called with the message and its answer decides
  the result.
\<close>

theorem Commit_empty_message:
  "(fst (Commit g message dryRun w) = Inl CommitMessageCannotBeEmpty \<longleftrightarrow> message = [])
   \<and> (message = [] \<longrightarrow> snd (Commit g message dryRun w) = w)
   \<and> (message \<noteq> [] \<longrightarrow>
        gitCommits (snd (Commit g message dryRun w)) = gitCommits w @ [(message, dryRun)]
        \<and> fst (Commit g message dryRun w)
            = (case gitCommit g message dryRun of
                 Inl err \<Rightarrow> Inl (GitCommitFailed err) | Inr hash \<Rightarrow> Inr hash))"
  by (auto simp: Commit_def Let_def split: sum.splits)

theorem Commit_empty_message_witness:
  "fst (Commit (FakeGit [] True) [] False newWorld) = Inl CommitMessageCannotBeEmpty
   \<and> snd (Commit (FakeGit [] True) [] False newWorld) = newWorld
   \<and> ''   '' \<noteq> []
   \<and> fst (Commit (FakeGit [] True) ''   '' False newWorld) = Inr ''abc123def456''
   \<and> gitCommits (snd (Commit (FakeGit [] True) ''   '' False newWorld))
       = gitCommits newWorld @ [(''   '', False)]"
  using Commit_empty_message [of "FakeGit [] True" "[]" False newWorld]
    Commit_empty_message [of "FakeGit [] True" "''   ''" False newWorld]
  by (simp add: FakeGit_def)

end
